theory Spec2Isabelle
  imports Main "HOL-Library.AList"
begin

section \<open>Values of the Python runtime\<close>

text \<open>
  A Python \<open>str\<close> is a sequence of code points (0 .. 0x10FFFF, lone surrogates
  included); \<open>bytes\<close> is a sequence of numbers below 256. Both are lists of naturals.
\<close>

type_synonym pystr = "nat list"
type_synonym pybytes = "nat list"

definition str_of :: "string \<Rightarrow> pystr" where
  "str_of s = map of_char s"

definition is_str :: "pystr \<Rightarrow> bool" where
  "is_str s = list_all (\<lambda>c. c < 1114112) s"

text \<open>
  The objects that \<open>json.loads\<close> and \<open>Response.json()\<close> produce. A float keeps the
  literal it was read from; a dict is an association list with distinct keys, in insertion
  order.
\<close>

datatype pyval =
    PNone
  | PBool bool
  | PInt int
  | PFloat pystr
  | PStr pystr
  | PList "pyval list"
  | PDict "(pystr \<times> pyval) list"

datatype exn =
    UnicodeEncodeError
  | UnicodeDecodeError
  | BinasciiError
  | JSONDecodeError
  | AttributeError
  | KeyError
  | TypeError
  | ConnectionError
  | Timeout
  | HTTPError nat

text \<open>
  What the model leaves to the interpreter: the truth value of a float, \<open>repr\<close> of a
  float, the text \<open>json.dumps\<close> writes for a float, and \<open>str\<close> of a list or dict.
  Every statement below holds for any choice of them.
\<close>

record runtime =
  float_bool :: "pystr \<Rightarrow> bool"
  float_repr :: "pystr \<Rightarrow> pystr"
  float_json :: "pystr \<Rightarrow> pystr"
  container_str :: "pyval \<Rightarrow> pystr"

definition truthy :: "runtime \<Rightarrow> pyval \<Rightarrow> bool" where
  "truthy R v =
     (case v of
        PNone \<Rightarrow> False
      | PBool b \<Rightarrow> b
      | PInt i \<Rightarrow> i \<noteq> 0
      | PFloat f \<Rightarrow> float_bool R f
      | PStr s \<Rightarrow> s \<noteq> []
      | PList xs \<Rightarrow> xs \<noteq> []
      | PDict kvs \<Rightarrow> kvs \<noteq> [])"

function dec_digits :: "nat \<Rightarrow> pystr" where
  "dec_digits n = (if n < 10 then [48 + n] else dec_digits (n div 10) @ [48 + n mod 10])"
  by pat_completeness auto
termination
  by (relation "measure (\<lambda>n. n)") auto

definition int_str :: "int \<Rightarrow> pystr" where
  "int_str i = (if i < 0 then 45 # dec_digits (nat (- i)) else dec_digits (nat i))"

text \<open>\<open>str(v)\<close>, which is what an f-string placeholder \<open>{v}\<close> inserts.\<close>

definition py_str :: "runtime \<Rightarrow> pyval \<Rightarrow> pystr" where
  "py_str R v =
     (case v of
        PStr s \<Rightarrow> s
      | PNone \<Rightarrow> str_of ''None''
      | PBool b \<Rightarrow> (if b then str_of ''True'' else str_of ''False'')
      | PInt i \<Rightarrow> int_str i
      | PFloat f \<Rightarrow> float_repr R f
      | _ \<Rightarrow> container_str R v)"

section \<open>UTF-8: \<open>str.encode()\<close> and \<open>bytes.decode()\<close>\<close>

definition utf8_encode_char :: "nat \<Rightarrow> exn + pybytes" where
  "utf8_encode_char c =
     (if c < 128 then Inr [c]
      else if c < 2048 then Inr [192 + c div 64, 128 + c mod 64]
      else if 55296 \<le> c \<and> c < 57344 then Inl UnicodeEncodeError
      else if c < 65536 then Inr [224 + c div 4096, 128 + c div 64 mod 64, 128 + c mod 64]
      else Inr [240 + c div 262144, 128 + c div 4096 mod 64, 128 + c div 64 mod 64,
                128 + c mod 64])"

fun str_encode :: "pystr \<Rightarrow> exn + pybytes" where
  "str_encode [] = Inr []"
| "str_encode (c # cs) =
     (case utf8_encode_char c of
        Inl e \<Rightarrow> Inl e
      | Inr bs \<Rightarrow> (case str_encode cs of Inl e \<Rightarrow> Inl e | Inr rest \<Rightarrow> Inr (bs @ rest)))"

definition is_cont :: "nat \<Rightarrow> bool" where
  "is_cont b = (128 \<le> b \<and> b < 192)"

text \<open>
  The strict decoder: shortest form only, no surrogates, nothing above 0x10FFFF. The
  second byte of a sequence is confined to \<open>lo .. hi\<close>, which depend on the lead byte.
\<close>

fun bytes_decode :: "pybytes \<Rightarrow> exn + pystr" where
  "bytes_decode [] = Inr []"
| "bytes_decode (b # bs) =
     (if b < 128 then
        (case bytes_decode bs of Inl e \<Rightarrow> Inl e | Inr s \<Rightarrow> Inr (b # s))
      else if 194 \<le> b \<and> b < 224 then
        (case bs of
           b1 # r \<Rightarrow>
             if is_cont b1 then
               (case bytes_decode r of
                  Inl e \<Rightarrow> Inl e
                | Inr s \<Rightarrow> Inr (((b - 192) * 64 + (b1 - 128)) # s))
             else Inl UnicodeDecodeError
         | _ \<Rightarrow> Inl UnicodeDecodeError)
      else if 224 \<le> b \<and> b < 240 then
        (case bs of
           b1 # b2 # r \<Rightarrow>
             if (if b = 224 then 160 else 128) \<le> b1 \<and> b1 < (if b = 237 then 160 else 192)
                \<and> is_cont b2 then
               (case bytes_decode r of
                  Inl e \<Rightarrow> Inl e
                | Inr s \<Rightarrow> Inr (((b - 224) * 4096 + (b1 - 128) * 64 + (b2 - 128)) # s))
             else Inl UnicodeDecodeError
         | _ \<Rightarrow> Inl UnicodeDecodeError)
      else if 240 \<le> b \<and> b < 245 then
        (case bs of
           b1 # b2 # b3 # r \<Rightarrow>
             if (if b = 240 then 144 else 128) \<le> b1 \<and> b1 < (if b = 244 then 144 else 192)
                \<and> is_cont b2 \<and> is_cont b3 then
               (case bytes_decode r of
                  Inl e \<Rightarrow> Inl e
                | Inr s \<Rightarrow>
                    Inr (((b - 240) * 262144 + (b1 - 128) * 4096 + (b2 - 128) * 64
                          + (b3 - 128)) # s))
             else Inl UnicodeDecodeError
         | _ \<Rightarrow> Inl UnicodeDecodeError)
      else Inl UnicodeDecodeError)"

section \<open>Base64 with the URL-safe alphabet\<close>

definition b64_char :: "nat \<Rightarrow> nat" where
  "b64_char i =
     (if i < 26 then 65 + i
      else if i < 52 then 71 + i
      else if i < 62 then i - 4
      else if i = 62 then 43
      else 47)"

text \<open>\<open>binascii.b2a_base64(s, newline=False)\<close>: three bytes give four characters.\<close>

fun b2a_base64 :: "pybytes \<Rightarrow> pybytes" where
  "b2a_base64 (a # b # c # rest) =
     b64_char (a div 4) # b64_char ((a mod 4) * 16 + b div 16)
       # b64_char ((b mod 16) * 4 + c div 64) # b64_char (c mod 64) # b2a_base64 rest"
| "b2a_base64 [a, b] =
     [b64_char (a div 4), b64_char ((a mod 4) * 16 + b div 16), b64_char ((b mod 16) * 4), 61]"
| "b2a_base64 [a] = [b64_char (a div 4), b64_char ((a mod 4) * 16), 61, 61]"
| "b2a_base64 [] = []"

definition urlsafe_encode_translation :: "nat \<Rightarrow> nat" where
  "urlsafe_encode_translation c = (if c = 43 then 45 else if c = 47 then 95 else c)"

definition urlsafe_decode_translation :: "nat \<Rightarrow> nat" where
  "urlsafe_decode_translation c = (if c = 45 then 43 else if c = 95 then 47 else c)"

definition urlsafe_b64encode :: "pybytes \<Rightarrow> pybytes" where
  "urlsafe_b64encode s = map urlsafe_encode_translation (b2a_base64 s)"

definition b64_value :: "nat \<Rightarrow> nat option" where
  "b64_value c =
     (if 65 \<le> c \<and> c \<le> 90 then Some (c - 65)
      else if 97 \<le> c \<and> c \<le> 122 then Some (c - 71)
      else if 48 \<le> c \<and> c \<le> 57 then Some (c + 4)
      else if c = 43 then Some 62
      else if c = 47 then Some 63
      else None)"

text \<open>
  \<open>binascii.a2b_base64\<close> in its default, non-strict mode: characters outside the
  alphabet are skipped, a pad character ends the input once it completes a quad, and
  input that stops inside a quad is an error. The state is the position in the quad, the
  bits left over from the previous character, the pads seen, and the output so far.
\<close>

fun a2b_base64 :: "pybytes \<Rightarrow> nat \<Rightarrow> nat \<Rightarrow> nat \<Rightarrow> pybytes \<Rightarrow> exn + pybytes" where
  "a2b_base64 [] quad_pos leftchar pads out =
     (if quad_pos \<noteq> 0 then Inl BinasciiError else Inr out)"
| "a2b_base64 (c # cs) quad_pos leftchar pads out =
     (if c = 61 then
        (if 2 \<le> quad_pos \<and> 4 \<le> quad_pos + (pads + 1) then Inr out
         else a2b_base64 cs quad_pos leftchar (if 2 \<le> quad_pos then pads + 1 else pads) out)
      else
        (case b64_value c of
           None \<Rightarrow> a2b_base64 cs quad_pos leftchar pads out
         | Some v \<Rightarrow>
             if quad_pos = 0 then a2b_base64 cs 1 v 0 out
             else if quad_pos = 1 then
               a2b_base64 cs 2 (v mod 16) 0 (out @ [leftchar * 4 + v div 16])
             else if quad_pos = 2 then
               a2b_base64 cs 3 (v mod 4) 0 (out @ [leftchar * 16 + v div 4])
             else a2b_base64 cs 0 0 0 (out @ [leftchar * 64 + v])))"

definition urlsafe_b64decode :: "pybytes \<Rightarrow> exn + pybytes" where
  "urlsafe_b64decode s = a2b_base64 (map urlsafe_decode_translation s) 0 0 0 []"

section \<open>JSON: \<open>json.dumps\<close>\<close>

definition hex_digit :: "nat \<Rightarrow> nat" where
  "hex_digit d = (if d < 10 then 48 + d else 87 + d)"

definition u_escape :: "nat \<Rightarrow> pystr" where
  "u_escape n =
     [92, 117, hex_digit (n div 4096 mod 16), hex_digit (n div 256 mod 16),
      hex_digit (n div 16 mod 16), hex_digit (n mod 16)]"

text \<open>
  One character of a string under \<open>ensure_ascii=True\<close>: printable ASCII stays, the
  short escapes are used where they exist, anything else is \<open>\uXXXX\<close>, and a character
  beyond the basic plane is written as a surrogate pair.
\<close>

definition ascii_escape_char :: "nat \<Rightarrow> pystr" where
  "ascii_escape_char c =
     (if c = 34 then [92, 34]
      else if c = 92 then [92, 92]
      else if c = 10 then [92, 110]
      else if c = 13 then [92, 114]
      else if c = 9 then [92, 116]
      else if c = 8 then [92, 98]
      else if c = 12 then [92, 102]
      else if 32 \<le> c \<and> c \<le> 126 then [c]
      else if c < 65536 then u_escape c
      else u_escape (55296 + (c - 65536) div 1024 mod 1024)
             @ u_escape (56320 + (c - 65536) mod 1024))"

definition encode_basestring_ascii :: "pystr \<Rightarrow> pystr" where
  "encode_basestring_ascii s = 34 # concat (map ascii_escape_char s) @ [34]"

fun join_str :: "pystr \<Rightarrow> pystr list \<Rightarrow> pystr" where
  "join_str sep [] = []"
| "join_str sep [x] = x"
| "join_str sep (x # y # ys) = x @ sep @ join_str sep (y # ys)"

fun json_dumps :: "runtime \<Rightarrow> pyval \<Rightarrow> pystr" where
  "json_dumps R PNone = str_of ''null''"
| "json_dumps R (PBool b) = (if b then str_of ''true'' else str_of ''false'')"
| "json_dumps R (PInt i) = int_str i"
| "json_dumps R (PFloat f) = float_json R f"
| "json_dumps R (PStr s) = encode_basestring_ascii s"
| "json_dumps R (PList xs) = 91 # join_str (str_of '', '') (map (json_dumps R) xs) @ [93]"
| "json_dumps R (PDict kvs) =
     123 # join_str (str_of '', '')
             (map (\<lambda>(k, v). encode_basestring_ascii k @ str_of '': '' @ json_dumps R v) kvs)
       @ [125]"

section \<open>JSON: \<open>json.loads\<close>\<close>

text \<open>
  The decoder reads a prefix of its input and returns the value with the rest. Every way
  it can fail is the one exception, \<open>JSONDecodeError\<close>. The limits of the interpreter
  (the depth of the recursion on nested containers, the number of digits of an integer
  literal, memory) are left out: a document that exceeds one makes \<open>json.loads\<close> raise
  an exception where the function below returns a value.
\<close>

definition is_ws :: "nat \<Rightarrow> bool" where
  "is_ws c = (c = 32 \<or> c = 9 \<or> c = 10 \<or> c = 13)"

definition skip_ws :: "pystr \<Rightarrow> pystr" where
  "skip_ws cs = dropWhile is_ws cs"

definition hex_value :: "nat \<Rightarrow> nat option" where
  "hex_value c =
     (if 48 \<le> c \<and> c \<le> 57 then Some (c - 48)
      else if 97 \<le> c \<and> c \<le> 102 then Some (c - 87)
      else if 65 \<le> c \<and> c \<le> 70 then Some (c - 55)
      else None)"

definition hex4_value :: "nat \<Rightarrow> nat \<Rightarrow> nat \<Rightarrow> nat \<Rightarrow> nat option" where
  "hex4_value a b c d =
     (case (hex_value a, hex_value b, hex_value c, hex_value d) of
        (Some x, Some y, Some z, Some w) \<Rightarrow> Some (((x * 16 + y) * 16 + z) * 16 + w)
      | _ \<Rightarrow> None)"

definition is_high_surrogate :: "nat \<Rightarrow> bool" where
  "is_high_surrogate u = (55296 \<le> u \<and> u \<le> 56319)"

definition is_low_surrogate :: "nat \<Rightarrow> bool" where
  "is_low_surrogate u = (56320 \<le> u \<and> u \<le> 57343)"

definition join_surrogates :: "nat \<Rightarrow> nat \<Rightarrow> nat" where
  "join_surrogates u u2 = 65536 + (u - 55296) * 1024 + (u2 - 56320)"

definition backslash :: "nat \<Rightarrow> nat option" where
  "backslash e =
     (if e = 34 then Some 34
      else if e = 92 then Some 92
      else if e = 47 then Some 47
      else if e = 98 then Some 8
      else if e = 102 then Some 12
      else if e = 110 then Some 10
      else if e = 114 then Some 13
      else if e = 116 then Some 9
      else None)"

definition read_hex4 :: "pystr \<Rightarrow> (nat \<times> pystr) option" where
  "read_hex4 cs =
     (case cs of
        h1 # h2 # h3 # h4 # rest \<Rightarrow>
          (case hex4_value h1 h2 h3 h4 of None \<Rightarrow> None | Some u \<Rightarrow> Some (u, rest))
      | _ \<Rightarrow> None)"

text \<open>
  The text after \<open>\u\<close>. A high surrogate joins with a low surrogate written as the very
  next \<open>\uXXXX\<close>; followed by anything else it stands alone.
\<close>

definition unicode_escape :: "pystr \<Rightarrow> exn + (nat \<times> pystr)" where
  "unicode_escape cs =
     (case read_hex4 cs of
        None \<Rightarrow> Inl JSONDecodeError
      | Some (u, rest) \<Rightarrow>
          if is_high_surrogate u \<and> 6 \<le> length rest \<and> take 2 rest = [92, 117] then
            (case read_hex4 (drop 2 rest) of
               None \<Rightarrow> Inl JSONDecodeError
             | Some (u2, rest') \<Rightarrow>
                 if is_low_surrogate u2 then Inr (join_surrogates u u2, rest')
                 else Inr (u, rest))
          else Inr (u, rest))"

text \<open>
  One step of \<open>scanstring\<close> in strict mode: the closing quote (\<open>None\<close>), or the next
  character of the string, with the input that follows.
\<close>

definition string_item :: "pystr \<Rightarrow> exn + (nat option \<times> pystr)" where
  "string_item cs =
     (case cs of
        [] \<Rightarrow> Inl JSONDecodeError
      | c # r \<Rightarrow>
          if c = 34 then Inr (None, r)
          else if c = 92 then
            (case r of
               [] \<Rightarrow> Inl JSONDecodeError
             | e # r' \<Rightarrow>
                 if e = 117 then
                   (case unicode_escape r' of
                      Inl x \<Rightarrow> Inl x
                    | Inr (u, rest) \<Rightarrow> Inr (Some u, rest))
                 else
                   (case backslash e of
                      None \<Rightarrow> Inl JSONDecodeError
                    | Some x \<Rightarrow> Inr (Some x, r')))
          else if c < 32 then Inl JSONDecodeError
          else Inr (Some c, r))"

lemma read_hex4_shorter: "read_hex4 cs = Some (u, rest) \<Longrightarrow> length rest < length cs"
  by (auto simp: read_hex4_def split: list.splits option.splits)

lemma unicode_escape_shorter:
  "unicode_escape cs = Inr (u, rest) \<Longrightarrow> length rest < length cs"
proof -
  assume a: "unicode_escape cs = Inr (u, rest)"
  then obtain u1 r1 where h: "read_hex4 cs = Some (u1, r1)"
    by (auto simp: unicode_escape_def split: option.splits)
  have l1: "length r1 < length cs" using h by (rule read_hex4_shorter)
  show ?thesis
  proof (cases "rest = r1")
    case True
    then show ?thesis using l1 by simp
  next
    case False
    then obtain u2 where "read_hex4 (drop 2 r1) = Some (u2, rest)"
      using a h by (auto simp: unicode_escape_def split: option.splits if_splits)
    then have "length rest < length (drop 2 r1)" by (rule read_hex4_shorter)
    then show ?thesis using l1 by simp
  qed
qed

lemma string_item_shorter:
  "string_item cs = Inr (x, rest) \<Longrightarrow> length rest < length cs"
  by (auto simp: string_item_def split: list.splits if_splits sum.splits option.splits
           dest: unicode_escape_shorter)

text \<open>\<open>scanstring\<close>, entered after the opening quote, with the characters read so far.\<close>

function scanstring :: "pystr \<Rightarrow> pystr \<Rightarrow> exn + (pystr \<times> pystr)" where
  "scanstring cs acc =
     (case string_item cs of
        Inl e \<Rightarrow> Inl e
      | Inr (None, rest) \<Rightarrow> Inr (acc, rest)
      | Inr (Some c, rest) \<Rightarrow> scanstring rest (acc @ [c]))"
  by pat_completeness auto
termination
  by (relation "measure (\<lambda>(cs, acc). length cs)") (auto dest: string_item_shorter)

declare scanstring.simps [simp del]

definition is_digit :: "nat \<Rightarrow> bool" where
  "is_digit c = (48 \<le> c \<and> c \<le> 57)"

definition digits_value :: "pystr \<Rightarrow> nat" where
  "digits_value ds = foldl (\<lambda>n d. n * 10 + (d - 48)) 0 ds"

text \<open>
  A number is read in four steps: an optional minus sign; then \<open>0\<close>, or a run of digits
  that does not start with \<open>0\<close>; then a fraction, taken only when a digit follows the
  point; then an exponent, taken only when it has a digit. Each step returns what it read
  and the rest. With a fraction or an exponent the value is a float.
\<close>

definition number_sign :: "pystr \<Rightarrow> pystr \<times> pystr" where
  "number_sign cs =
     (case cs of c # r \<Rightarrow> if c = 45 then ([45], r) else ([], cs) | [] \<Rightarrow> ([], cs))"

definition number_int :: "pystr \<Rightarrow> (pystr \<times> pystr) option" where
  "number_int cs =
     (case cs of
        [] \<Rightarrow> None
      | d # r \<Rightarrow>
          if is_digit d then
            Some (if d = 48 then ([48], r)
                  else (takeWhile is_digit cs, dropWhile is_digit cs))
          else None)"

definition number_frac :: "pystr \<Rightarrow> pystr \<times> pystr" where
  "number_frac cs =
     (case cs of
        p # f # r \<Rightarrow>
          if p = 46 \<and> is_digit f
          then (46 # takeWhile is_digit (f # r), dropWhile is_digit (f # r))
          else ([], cs)
      | _ \<Rightarrow> ([], cs))"

definition number_exp :: "pystr \<Rightarrow> pystr \<times> pystr" where
  "number_exp cs =
     (case cs of
        e # r \<Rightarrow>
          if e = 101 \<or> e = 69 then
            (case (case r of
                     s # r' \<Rightarrow> if s = 43 \<or> s = 45 then ([s], r') else ([], r)
                   | [] \<Rightarrow> ([], r)) of
               (sg, r') \<Rightarrow>
                 if takeWhile is_digit r' \<noteq> []
                 then (e # sg @ takeWhile is_digit r', dropWhile is_digit r')
                 else ([], cs))
          else ([], cs)
      | [] \<Rightarrow> ([], cs))"

definition match_number :: "pystr \<Rightarrow> exn + (pyval \<times> pystr)" where
  "match_number cs =
     (case number_sign cs of
        (sign, r0) \<Rightarrow>
          (case number_int r0 of
             None \<Rightarrow> Inl JSONDecodeError
           | Some (ds, r2) \<Rightarrow>
               (case number_frac r2 of
                  (frac, r3) \<Rightarrow>
                    (case number_exp r3 of
                       (ex, r4) \<Rightarrow>
                         if frac \<noteq> [] \<or> ex \<noteq> []
                         then Inr (PFloat (sign @ ds @ frac @ ex), r4)
                         else Inr (PInt (if sign = [] then int (digits_value ds)
                                         else - int (digits_value ds)), r4)))))"

definition starts_with :: "pystr \<Rightarrow> pystr \<Rightarrow> bool" where
  "starts_with cs lit = (take (length lit) cs = lit)"

lemma scanstring_shorter:
  "scanstring cs acc = Inr (s, rest) \<Longrightarrow> length rest < length cs"
proof (induction cs acc rule: scanstring.induct)
  case (1 cs acc)
  show ?case
  proof (cases "string_item cs")
    case (Inl e)
    then show ?thesis using "1.prems" by (simp add: scanstring.simps[of cs])
  next
    case (Inr p)
    obtain x r where p: "p = (x, r)" by (cases p)
    have l: "length r < length cs" using Inr p by (auto dest: string_item_shorter)
    show ?thesis
    proof (cases x)
      case None
      then show ?thesis using "1.prems" Inr p l by (simp add: scanstring.simps[of cs])
    next
      case (Some c)
      then have "scanstring r (acc @ [c]) = Inr (s, rest)"
        using "1.prems" Inr p by (simp add: scanstring.simps[of cs])
      then have "length rest < length r" using "1.IH" Inr p Some by simp
      then show ?thesis using l by simp
    qed
  qed
qed

lemma skip_ws_le: "length (skip_ws cs) \<le> length cs"
  by (simp add: skip_ws_def length_dropWhile_le)

lemma skip_ws_Cons_less: "skip_ws r = d # r' \<Longrightarrow> length r' < length r"
  using skip_ws_le[of r] by simp

lemma skip_ws_Cons_less2: "skip_ws r = d # r' \<Longrightarrow> length (skip_ws r') < length r"
  using skip_ws_le[of r] skip_ws_le[of r'] by simp

text \<open>
  \<open>scan_once\<close> reads one JSON value; \<open>parse_object\<close> and \<open>parse_array\<close> are the loops
  over the members of an object and the elements of an array, entered after the opening
  bracket and the white space behind it, when the container is not empty. A key that
  occurs twice keeps its first position and its last value, as in a \<open>dict\<close>. In each loop
  the test that the value just read has used up input always succeeds (see
  \<open>scan_once_shorter\<close>); it is what makes the recursion well-founded.
\<close>

function scan_once :: "pystr \<Rightarrow> exn + (pyval \<times> pystr)"
  and parse_object :: "pystr \<Rightarrow> (pystr \<times> pyval) list \<Rightarrow> exn + (pyval \<times> pystr)"
  and parse_array :: "pystr \<Rightarrow> pyval list \<Rightarrow> exn + (pyval \<times> pystr)"
where
  "scan_once [] = Inl JSONDecodeError"
| "scan_once (c # cs) =
     (if c = 34 then
        (case scanstring cs [] of Inl e \<Rightarrow> Inl e | Inr (s, rest) \<Rightarrow> Inr (PStr s, rest))
      else if c = 123 then
        (case skip_ws cs of
           [] \<Rightarrow> Inl JSONDecodeError
         | d # r \<Rightarrow> if d = 125 then Inr (PDict [], r) else parse_object (d # r) [])
      else if c = 91 then
        (case skip_ws cs of
           [] \<Rightarrow> Inl JSONDecodeError
         | d # r \<Rightarrow> if d = 93 then Inr (PList [], r) else parse_array (d # r) [])
      else if c = 110 \<and> starts_with cs (str_of ''ull'') then Inr (PNone, drop 3 cs)
      else if c = 116 \<and> starts_with cs (str_of ''rue'') then Inr (PBool True, drop 3 cs)
      else if c = 102 \<and> starts_with cs (str_of ''alse'') then Inr (PBool False, drop 4 cs)
      else if c = 78 \<and> starts_with cs (str_of ''aN'') then Inr (PFloat (str_of ''NaN''), drop 2 cs)
      else if c = 73 \<and> starts_with cs (str_of ''nfinity'')
        then Inr (PFloat (str_of ''Infinity''), drop 7 cs)
      else if c = 45 \<and> starts_with cs (str_of ''Infinity'')
        then Inr (PFloat (str_of ''-Infinity''), drop 8 cs)
      else match_number (c # cs))"
| "parse_object cs pairs =
     (case cs of
        [] \<Rightarrow> Inl JSONDecodeError
      | q # r \<Rightarrow>
          if q \<noteq> 34 then Inl JSONDecodeError
          else
            (case scanstring r [] of
               Inl e \<Rightarrow> Inl e
             | Inr (key, r1) \<Rightarrow>
                 (case skip_ws r1 of
                    [] \<Rightarrow> Inl JSONDecodeError
                  | colon # r2 \<Rightarrow>
                      if colon \<noteq> 58 then Inl JSONDecodeError
                      else
                        (case scan_once (skip_ws r2) of
                           Inl e \<Rightarrow> Inl e
                         | Inr (val, r3) \<Rightarrow>
                             if length r3 < length (skip_ws r2) then
                               (case skip_ws r3 of
                                  [] \<Rightarrow> Inl JSONDecodeError
                                | d # r4 \<Rightarrow>
                                    if d = 125 then Inr (PDict (AList.update key val pairs), r4)
                                    else if d = 44
                                      then parse_object (skip_ws r4) (AList.update key val pairs)
                                    else Inl JSONDecodeError)
                             else Inl JSONDecodeError))))"
| "parse_array cs vals =
     (case scan_once cs of
        Inl e \<Rightarrow> Inl e
      | Inr (val, r) \<Rightarrow>
          if length r < length cs then
            (case skip_ws r of
               [] \<Rightarrow> Inl JSONDecodeError
             | d # r' \<Rightarrow>
                 if d = 93 then Inr (PList (vals @ [val]), r')
                 else if d = 44 then parse_array (skip_ws r') (vals @ [val])
                 else Inl JSONDecodeError)
          else Inl JSONDecodeError)"
  by pat_completeness auto

termination
  apply (relation "measure (\<lambda>x. case x of Inl cs \<Rightarrow> 2 * length cs
                                 | Inr (Inl (cs, _)) \<Rightarrow> 2 * length cs + 1
                                 | Inr (Inr (cs, _)) \<Rightarrow> 2 * length cs + 1)")
  apply simp_all
  subgoal for c cs d r
    using skip_ws_Cons_less[of cs d r] by simp
  subgoal for c cs d r
    using skip_ws_Cons_less[of cs d r] by simp
  subgoal for cs q r b key r1 colon r2
    using scanstring_shorter[of r "[]" key r1] skip_ws_Cons_less[of r1 58 r2] skip_ws_le[of r2]
    by auto
  subgoal for cs q r b key r1 colon r2 ba val r3 d r4
    using scanstring_shorter[of r "[]" key r1] skip_ws_Cons_less[of r1 58 r2] skip_ws_le[of r2]
      skip_ws_Cons_less[of r3 44 r4] skip_ws_le[of r4]
    by auto
  subgoal for cs b val r d r'
    using skip_ws_Cons_less[of r 44 r'] skip_ws_le[of r']
    by auto
  done

declare scan_once.simps [simp del] parse_object.simps [simp del] parse_array.simps [simp del]

definition json_loads :: "pystr \<Rightarrow> exn + pyval" where
  "json_loads s =
     (if starts_with s [65279] then Inl JSONDecodeError
      else
        (case scan_once (skip_ws s) of
           Inl e \<Rightarrow> Inl e
         | Inr (obj, rest) \<Rightarrow> if skip_ws rest = [] then Inr obj else Inl JSONDecodeError))"

section \<open>Operations on objects\<close>

text \<open>\<open>obj.get(key, default)\<close>: only a dict has the method.\<close>

definition dict_get :: "pyval \<Rightarrow> pystr \<Rightarrow> pyval \<Rightarrow> exn + pyval" where
  "dict_get obj k dflt =
     (case obj of
        PDict kvs \<Rightarrow> Inr (case map_of kvs k of None \<Rightarrow> dflt | Some v \<Rightarrow> v)
      | _ \<Rightarrow> Inl AttributeError)"

text \<open>\<open>obj[key]\<close> with a string key.\<close>

definition subscript :: "pyval \<Rightarrow> pystr \<Rightarrow> exn + pyval" where
  "subscript obj k =
     (case obj of
        PDict kvs \<Rightarrow> (case map_of kvs k of None \<Rightarrow> Inl KeyError | Some v \<Rightarrow> Inr v)
      | _ \<Rightarrow> Inl TypeError)"

text \<open>\<open>obj[:n]\<close>.\<close>

definition slice_to :: "nat \<Rightarrow> pyval \<Rightarrow> exn + pyval" where
  "slice_to n obj =
     (case obj of
        PStr s \<Rightarrow> Inr (PStr (take n s))
      | PList xs \<Rightarrow> Inr (PList (take n xs))
      | _ \<Rightarrow> Inl TypeError)"

text \<open>What a \<open>for\<close> loop over the object visits.\<close>

definition iterate :: "pyval \<Rightarrow> exn + pyval list" where
  "iterate obj =
     (case obj of
        PList xs \<Rightarrow> Inr xs
      | PDict kvs \<Rightarrow> Inr (map (\<lambda>kv. PStr (fst kv)) kvs)
      | PStr s \<Rightarrow> Inr (map (\<lambda>c. PStr [c]) s)
      | _ \<Rightarrow> Inl TypeError)"

definition is_space :: "nat \<Rightarrow> bool" where
  "is_space c =
     ((9 \<le> c \<and> c \<le> 13) \<or> (28 \<le> c \<and> c \<le> 32) \<or> c = 133 \<or> c = 160 \<or> c = 5760
      \<or> (8192 \<le> c \<and> c \<le> 8202) \<or> c = 8232 \<or> c = 8233 \<or> c = 8239 \<or> c = 8287
      \<or> c = 12288)"

definition strip :: "pystr \<Rightarrow> pystr" where
  "strip s = rev (dropWhile is_space (rev (dropWhile is_space s)))"

definition replace_char :: "nat \<Rightarrow> pystr \<Rightarrow> pystr \<Rightarrow> pystr" where
  "replace_char c new s = concat (map (\<lambda>x. if x = c then new else [x]) s)"

text \<open>\<open>html.escape(s)\<close>, with \<open>quote=True\<close>: the ampersand first, then the rest.\<close>

definition html_escape :: "pystr \<Rightarrow> pystr" where
  "html_escape s =
     replace_char 39 (str_of ''&#x27;'')
       (replace_char 34 (str_of ''&quot;'')
         (replace_char 62 (str_of ''&gt;'')
           (replace_char 60 (str_of ''&lt;'')
             (replace_char 38 (str_of ''&amp;'') s))))"

section \<open>The cursor codec\<close>

definition encode_offset :: "runtime \<Rightarrow> pystr \<Rightarrow> pyval \<Rightarrow> exn + pystr" where
  "encode_offset R query page_token =
     (let payload = PDict [(str_of ''q'', PStr query), (str_of ''pageToken'', page_token)]
      in case str_encode (json_dumps R payload) of
           Inl e \<Rightarrow> Inl e
         | Inr bs \<Rightarrow> bytes_decode (urlsafe_b64encode bs))"

text \<open>The body of the \<open>try\<close> block of \<open>decode_offset\<close>.\<close>

definition decode_offset_try :: "pystr \<Rightarrow> exn + (pyval \<times> pyval)" where
  "decode_offset_try offset =
     (case str_encode offset of
        Inl e \<Rightarrow> Inl e
      | Inr bs \<Rightarrow>
          (case urlsafe_b64decode bs of
             Inl e \<Rightarrow> Inl e
           | Inr raw \<Rightarrow>
               (case bytes_decode raw of
                  Inl e \<Rightarrow> Inl e
                | Inr decoded \<Rightarrow>
                    (case json_loads decoded of
                       Inl e \<Rightarrow> Inl e
                     | Inr obj \<Rightarrow>
                         (case dict_get obj (str_of ''q'') PNone of
                            Inl e \<Rightarrow> Inl e
                          | Inr q \<Rightarrow>
                              (case dict_get obj (str_of ''pageToken'') PNone of
                                 Inl e \<Rightarrow> Inl e
                               | Inr t \<Rightarrow> Inr (q, t)))))))"

definition decode_offset :: "pystr \<Rightarrow> pyval \<times> pyval" where
  "decode_offset offset =
     (case decode_offset_try offset of Inl e \<Rightarrow> (PNone, PNone) | Inr r \<Rightarrow> r)"

section \<open>The upstream search\<close>

text \<open>
  The network is a capability of the environment: \<open>requests.get\<close> maps a URL, the query
  parameters and a timeout to an exception or a response, and a response answers
  \<open>raise_for_status()\<close> (an exception, or nothing) and \<open>json()\<close>.
\<close>

record response =
  raise_for_status :: "exn option"
  json :: "exn + pyval"

record env =
  rt :: runtime
  YOUTUBE_API_KEY :: pystr
  requests_get :: "pystr \<Rightarrow> (pystr \<times> pyval) list \<Rightarrow> nat \<Rightarrow> exn + response"

definition YOUTUBE_SEARCH_URL :: pystr where
  "YOUTUBE_SEARCH_URL = str_of ''https://www.googleapis.com/youtube/v3/search''"

definition RESULTS_PER_PAGE :: int where
  "RESULTS_PER_PAGE = 10"

definition youtube_search :: "env \<Rightarrow> pystr \<Rightarrow> pyval \<Rightarrow> int \<Rightarrow> exn + pyval" where
  "youtube_search E query page_token max_results =
     (let params =
            [(str_of ''part'', PStr (str_of ''snippet'')),
             (str_of ''q'', PStr query),
             (str_of ''type'', PStr (str_of ''video'')),
             (str_of ''maxResults'', PInt max_results),
             (str_of ''key'', PStr (YOUTUBE_API_KEY E))];
          params' =
            (if truthy (rt E) page_token
             then AList.update (str_of ''pageToken'') page_token params
             else params)
      in case requests_get E YOUTUBE_SEARCH_URL params' 8 of
           Inl e \<Rightarrow> Inl e
         | Inr r \<Rightarrow> (case raise_for_status r of Some e \<Rightarrow> Inl e | None \<Rightarrow> json r))"

section \<open>The inline query handler\<close>

record input_text_message_content =
  message_text :: pystr
  parse_mode :: pystr

record inline_keyboard_button =
  button_text :: pystr
  button_url :: pystr

record inline_query_result_article =
  article_id :: pyval
  article_title :: pyval
  article_description :: pyval
  thumb_url :: pyval
  input_message_content :: input_text_message_content
  reply_markup :: "inline_keyboard_button list list"

text \<open>
  The body of the loop over the items, for one item: an exception, \<open>None\<close> where the
  loop continues without a card, or the card it appends.
\<close>

definition item_result :: "runtime \<Rightarrow> pyval \<Rightarrow> exn + inline_query_result_article option" where
  "item_result R it =
     (case subscript it (str_of ''id'') of
        Inl e \<Rightarrow> Inl e
      | Inr ident \<Rightarrow>
     (case dict_get ident (str_of ''videoId'') PNone of
        Inl e \<Rightarrow> Inl e
      | Inr vid \<Rightarrow>
          if \<not> truthy R vid then Inr None
          else
     (case subscript it (str_of ''snippet'') of
        Inl e \<Rightarrow> Inl e
      | Inr s \<Rightarrow>
     (case dict_get s (str_of ''title'') (PStr (str_of ''YouTube video'')) of
        Inl e \<Rightarrow> Inl e
      | Inr title \<Rightarrow>
     (case dict_get s (str_of ''channelTitle'') (PStr []) of
        Inl e \<Rightarrow> Inl e
      | Inr channel \<Rightarrow>
     (case dict_get s (str_of ''description'') PNone of
        Inl e \<Rightarrow> Inl e
      | Inr d \<Rightarrow>
     (case slice_to 120 (if truthy R d then d else PStr []) of
        Inl e \<Rightarrow> Inl e
      | Inr desc \<Rightarrow>
     (case dict_get s (str_of ''thumbnails'') (PDict []) of
        Inl e \<Rightarrow> Inl e
      | Inr thumbs \<Rightarrow>
     (case dict_get thumbs (str_of ''default'') (PDict []) of
        Inl e \<Rightarrow> Inl e
      | Inr fallback \<Rightarrow>
     (case dict_get thumbs (str_of ''medium'') fallback of
        Inl e \<Rightarrow> Inl e
      | Inr chosen \<Rightarrow>
     (case dict_get chosen (str_of ''url'') PNone of
        Inl e \<Rightarrow> Inl e
      | Inr thumb \<Rightarrow>
          (let url = str_of ''https://youtu.be/'' @ py_str R vid;
               input_text = html_escape (py_str R title @ [10] @ url);
               input_content = \<lparr>message_text = input_text, parse_mode = str_of ''HTML''\<rparr>;
               kb = [[\<lparr>button_text = str_of ''Open on YouTube'', button_url = url\<rparr>]]
           in Inr (Some \<lparr>article_id = vid,
                          article_title = title,
                          article_description = (if truthy R channel then channel else desc),
                          thumb_url = thumb,
                          input_message_content = input_content,
                          reply_markup = kb\<rparr>)))))))))))))"

fun item_results ::
  "runtime \<Rightarrow> pyval list \<Rightarrow> inline_query_result_article list
     \<Rightarrow> exn + inline_query_result_article list" where
  "item_results R [] results = Inr results"
| "item_results R (it # items) results =
     (case item_result R it of
        Inl e \<Rightarrow> Inl e
      | Inr None \<Rightarrow> item_results R items results
      | Inr (Some a) \<Rightarrow> item_results R items (results @ [a]))"

record inline_query =
  iq_query :: "pystr option"
  iq_offset :: "pystr option"

text \<open>The arguments of \<open>iq.answer\<close>.\<close>

record answer =
  results :: "inline_query_result_article list"
  is_personal :: bool
  cache_time :: nat
  next_offset :: pystr

text \<open>
  What a run of the handler does: the calls of \<open>youtube_search\<close> it makes, with their
  arguments; what it prints; and how it ends, with the answer it gives or with the
  exception that leaves it.
\<close>

record run =
  search_calls :: "(pystr \<times> pyval) list"
  printed :: "exn list"
  outcome :: "exn + answer"

text \<open>The handler from the point where the search has returned \<open>data\<close>.\<close>

definition answer_page :: "runtime \<Rightarrow> pystr \<Rightarrow> pyval \<Rightarrow> exn + answer" where
  "answer_page R query data =
     (case dict_get data (str_of ''items'') (PList []) of
        Inl e \<Rightarrow> Inl e
      | Inr items \<Rightarrow>
     (case dict_get data (str_of ''nextPageToken'') (PStr []) of
        Inl e \<Rightarrow> Inl e
      | Inr next_token \<Rightarrow>
     (case iterate items of
        Inl e \<Rightarrow> Inl e
      | Inr its \<Rightarrow>
     (case item_results R its [] of
        Inl e \<Rightarrow> Inl e
      | Inr cards \<Rightarrow>
     (case (if truthy R next_token then encode_offset R query next_token else Inr []) of
        Inl e \<Rightarrow> Inl e
      | Inr offset' \<Rightarrow>
          Inr \<lparr>results = cards, is_personal = True, cache_time = 30,
               next_offset = offset'\<rparr>)))))"

definition inline_query_handler :: "env \<Rightarrow> inline_query \<Rightarrow> run" where
  "inline_query_handler E iq =
     (let query = strip (case iq_query iq of None \<Rightarrow> [] | Some q \<Rightarrow> q);
          offset = (case iq_offset iq of None \<Rightarrow> [] | Some off \<Rightarrow> off);
          page_token =
            (if offset \<noteq> [] then
               (case decode_offset offset of
                  (oq, otoken) \<Rightarrow> if oq = PStr query then otoken else PNone)
             else PNone)
      in if query = [] then
           \<lparr>search_calls = [], printed = [],
            outcome = Inr \<lparr>results = [], is_personal = True, cache_time = 1,
                           next_offset = []\<rparr>\<rparr>
         else
           (case youtube_search E query page_token RESULTS_PER_PAGE of
              Inl e \<Rightarrow>
                \<lparr>search_calls = [(query, page_token)], printed = [e],
                 outcome = Inr \<lparr>results = [], is_personal = True, cache_time = 1,
                                next_offset = []\<rparr>\<rparr>
            | Inr data \<Rightarrow>
                \<lparr>search_calls = [(query, page_token)], printed = [],
                 outcome = answer_page (rt E) query data\<rparr>))"

section \<open>The decoder uses up input\<close>

lemma number_sign_le: "number_sign cs = (sign, r) \<Longrightarrow> length r \<le> length cs"
  by (auto simp: number_sign_def split: list.splits if_splits)

lemma number_int_shorter: "number_int cs = Some (ds, r) \<Longrightarrow> length r < length cs"
proof -
  assume a: "number_int cs = Some (ds, r)"
  then obtain d t where c: "cs = d # t" and d: "is_digit d"
    by (cases cs) (auto simp: number_int_def split: if_splits)
  show ?thesis
  proof (cases "d = 48")
    case True
    then show ?thesis using a c d by (simp add: number_int_def)
  next
    case False
    then have "r = dropWhile is_digit t"
      using a c d by (simp add: number_int_def)
    then show ?thesis using c length_dropWhile_le[of is_digit t] by simp
  qed
qed

lemma number_frac_le: "number_frac cs = (frac, r) \<Longrightarrow> length r \<le> length cs"
proof (cases cs)
  case Nil
  assume "number_frac cs = (frac, r)"
  then show ?thesis using Nil by (simp add: number_frac_def)
next
  case (Cons p t)
  assume a: "number_frac cs = (frac, r)"
  show ?thesis
  proof (cases t)
    case Nil
    then show ?thesis using a Cons by (simp add: number_frac_def)
  next
    case (Cons f u)
    then show ?thesis
      using a \<open>cs = p # t\<close> length_dropWhile_le[of is_digit u]
      by (auto simp: number_frac_def split: if_splits)
  qed
qed

lemma number_exp_le: "number_exp cs = (ex, r) \<Longrightarrow> length r \<le> length cs"
proof (cases cs)
  case Nil
  assume "number_exp cs = (ex, r)"
  then show ?thesis using Nil by (simp add: number_exp_def)
next
  case (Cons e t)
  assume a: "number_exp cs = (ex, r)"
  obtain sg r' where p: "(case t of s # r' \<Rightarrow> if s = 43 \<or> s = 45 then ([s], r') else ([], t)
                                   | [] \<Rightarrow> ([], t)) = (sg, r')"
    by (cases "(case t of s # r' \<Rightarrow> if s = 43 \<or> s = 45 then ([s], r') else ([], t)
                                   | [] \<Rightarrow> ([], t))")
  then have l: "length r' \<le> length t"
    by (auto split: list.splits if_splits)
  have "r = cs \<or> r = dropWhile is_digit r'"
    using a Cons p by (auto simp: number_exp_def split: if_splits)
  then show ?thesis
    using l Cons length_dropWhile_le[of is_digit r'] by auto
qed

lemma match_number_shorter:
  assumes "match_number cs = Inr (v, rest)"
  shows "length rest < length cs"
proof -
  obtain sign r0 where s: "number_sign cs = (sign, r0)" by (cases "number_sign cs")
  from assms s obtain ds r2 where i: "number_int r0 = Some (ds, r2)"
    by (cases "number_int r0") (auto simp: match_number_def)
  obtain frac r3 where f: "number_frac r2 = (frac, r3)" by (cases "number_frac r2")
  obtain ex r4 where e: "number_exp r3 = (ex, r4)" by (cases "number_exp r3")
  have "rest = r4"
    using assms s i f e by (auto simp: match_number_def split: if_splits)
  then show ?thesis
    using number_sign_le[OF s] number_int_shorter[OF i] number_frac_le[OF f] number_exp_le[OF e]
    by simp
qed

lemma scan_shorter:
  "(\<forall>v rest. scan_once cs = Inr (v, rest) \<longrightarrow> length rest < length cs)"
  "(\<forall>v rest. parse_object cs' pairs = Inr (v, rest) \<longrightarrow> length rest < length cs')"
  "(\<forall>v rest. parse_array cs'' vals = Inr (v, rest) \<longrightarrow> length rest < length cs'')"
proof (induction cs and cs' pairs and cs'' vals rule: scan_once_parse_object_parse_array.induct)
  case 1
  show ?case by (simp add: scan_once.simps)
next
  case (2 c cs)
  show ?case
  proof (intro allI impI)
    fix v rest
    assume a: "scan_once (c # cs) = Inr (v, rest)"
    consider (str) "c = 34" | (obj) "c = 123" | (arr) "c = 91"
      | (other) "c \<noteq> 34" "c \<noteq> 123" "c \<noteq> 91"
      by blast
    then show "length rest < length (c # cs)"
    proof cases
      case str
      then obtain s where "scanstring cs [] = Inr (s, rest)"
        using a by (auto simp: scan_once.simps split: sum.splits)
      then show ?thesis using scanstring_shorter by fastforce
    next
      case obj
      show ?thesis
      proof (cases "skip_ws cs")
        case Nil
        then show ?thesis using a obj by (simp add: scan_once.simps)
      next
        case (Cons d r)
        have l: "length r < length cs" using Cons by (rule skip_ws_Cons_less)
        show ?thesis
        proof (cases "d = 125")
          case True
          then show ?thesis using a obj Cons l by (simp add: scan_once.simps)
        next
          case False
          then have "parse_object (d # r) [] = Inr (v, rest)"
            using a obj Cons by (simp add: scan_once.simps)
          then have "length rest < length (d # r)"
            using "2.IH"(1)[of d r] obj Cons False by simp
          then show ?thesis using l by simp
        qed
      qed
    next
      case arr
      show ?thesis
      proof (cases "skip_ws cs")
        case Nil
        then show ?thesis using a arr by (simp add: scan_once.simps)
      next
        case (Cons d r)
        have l: "length r < length cs" using Cons by (rule skip_ws_Cons_less)
        show ?thesis
        proof (cases "d = 93")
          case True
          then show ?thesis using a arr Cons l by (simp add: scan_once.simps)
        next
          case False
          then have "parse_array (d # r) [] = Inr (v, rest)"
            using a arr Cons by (simp add: scan_once.simps)
          then have "length rest < length (d # r)"
            using "2.IH"(2)[of d r] arr Cons False by simp
          then show ?thesis using l by simp
        qed
      qed
    next
      case other
      have "rest = drop 3 cs \<and> 3 \<le> length cs \<or> rest = drop 4 cs \<and> 4 \<le> length cs
            \<or> rest = drop 2 cs \<and> 2 \<le> length cs \<or> rest = drop 7 cs \<and> 7 \<le> length cs
            \<or> rest = drop 8 cs \<and> 8 \<le> length cs
            \<or> match_number (c # cs) = Inr (v, rest)"
        using a other
        by (auto simp: scan_once.simps(2)[of c cs] starts_with_def str_of_def split: if_splits
                 dest!: arg_cong[where f = length])
      then show ?thesis
        using match_number_shorter[of "c # cs" v rest] by auto
    qed
  qed
next
  case (3 cs pairs)
  show ?case
  proof (intro allI impI)
    fix v rest
    assume a: "parse_object cs pairs = Inr (v, rest)"
    from a obtain r where cs: "cs = 34 # r"
      by (subst (asm) parse_object.simps) (auto split: list.splits if_splits)
    from a cs obtain key r1 where k: "scanstring r [] = Inr (key, r1)"
      by (subst (asm) parse_object.simps) (auto split: sum.splits)
    from a cs k obtain r2 where c: "skip_ws r1 = 58 # r2"
      by (subst (asm) parse_object.simps) (auto split: list.splits if_splits)
    from a cs k c obtain val r3 where s: "scan_once (skip_ws r2) = Inr (val, r3)"
      by (subst (asm) parse_object.simps) (auto split: sum.splits)
    from a cs k c s have g: "length r3 < length (skip_ws r2)"
      by (subst (asm) parse_object.simps) (auto split: if_splits)
    from a cs k c s g obtain d r4 where d: "skip_ws r3 = d # r4"
      by (subst (asm) parse_object.simps) (auto split: list.splits)
    have l1: "length r1 < length r" using k by (rule scanstring_shorter)
    have l2: "length r2 < length r1" using c by (rule skip_ws_Cons_less)
    have l3: "length (skip_ws r2) \<le> length r2" by (rule skip_ws_le)
    have l4: "length r4 < length r3" using d by (rule skip_ws_Cons_less)
    show "length rest < length cs"
    proof (cases "d = 125")
      case True
      then have "rest = r4"
        using a cs k c s g d by (subst (asm) parse_object.simps) simp
      then show ?thesis using cs l1 l2 l3 l4 g by simp
    next
      case False
      then have d44: "d = 44"
        and p: "parse_object (skip_ws r4) (AList.update key val pairs) = Inr (v, rest)"
        using a cs k c s g d by (subst (asm) parse_object.simps; simp split: if_splits)+
      have "length rest < length (skip_ws r4)"
        using "3.IH"(2)[of 34 r "(key, r1)" key r1 58 r2 "(val, r3)" val r3 d r4]
          cs k c s g d False d44 p by simp
      then show ?thesis
        using cs l1 l2 l3 l4 g skip_ws_le[of r4] by simp
    qed
  qed
next
  case (4 cs vals)
  show ?case
  proof (intro allI impI)
    fix v rest
    assume a: "parse_array cs vals = Inr (v, rest)"
    from a obtain val r where s: "scan_once cs = Inr (val, r)"
      by (subst (asm) parse_array.simps) (auto split: sum.splits)
    from a s have g: "length r < length cs"
      by (subst (asm) parse_array.simps) (auto split: if_splits)
    from a s g obtain d r' where d: "skip_ws r = d # r'"
      by (subst (asm) parse_array.simps) (auto split: list.splits)
    have l: "length r' < length r" using d by (rule skip_ws_Cons_less)
    show "length rest < length cs"
    proof (cases "d = 93")
      case True
      then have "rest = r'"
        using a s g d by (subst (asm) parse_array.simps) simp
      then show ?thesis using l g by simp
    next
      case False
      then have d44: "d = 44"
        and p: "parse_array (skip_ws r') (vals @ [val]) = Inr (v, rest)"
        using a s g d by (subst (asm) parse_array.simps; simp split: if_splits)+
      have "length rest < length (skip_ws r')"
        using "4.IH"(2)[of "(val, r)" val r d r'] s g d False d44 p by simp
      then show ?thesis
        using l g skip_ws_le[of r'] by simp
    qed
  qed
qed

lemma scan_once_shorter: "scan_once cs = Inr (v, rest) \<Longrightarrow> length rest < length cs"
  using scan_shorter(1)[of cs] by blast

section \<open>Notions used in the statements\<close>

text \<open>
  The video identifier the loop extracts from an item, when it extracts one: the value under
  \<open>videoId\<close> of the item's \<open>id\<close>, if it is there and counts as true.
\<close>

definition video_id :: "runtime \<Rightarrow> pyval \<Rightarrow> pyval option" where
  "video_id R it =
     (case subscript it (str_of ''id'') of
        Inl e \<Rightarrow> None
      | Inr ident \<Rightarrow>
          (case dict_get ident (str_of ''videoId'') PNone of
             Inl e \<Rightarrow> None
           | Inr vid \<Rightarrow> if truthy R vid then Some vid else None))"

text \<open>
  A string has no surrogate pair when no high surrogate is directly followed by a low
  surrogate. Every string of Unicode scalar values is such a string.
\<close>

fun no_surrogate_pair :: "pystr \<Rightarrow> bool" where
  "no_surrogate_pair (a # b # cs) =
     (\<not> (is_high_surrogate a \<and> is_low_surrogate b) \<and> no_surrogate_pair (b # cs))"
| "no_surrogate_pair _ = True"

text \<open>
  In \<open>unicode_escape\<close>, the escape just read joins with the text that follows when it is
  a high surrogate and that text starts with the escape of a low surrogate (or with
  \<open>\u\<close> and no four hexadecimal digits, which is an error).
\<close>

definition joins_next :: "nat \<Rightarrow> pystr \<Rightarrow> bool" where
  "joins_next c tail =
     (is_high_surrogate c \<and> 6 \<le> length tail \<and> take 2 tail = [92, 117]
      \<and> (case read_hex4 (drop 2 tail) of None \<Rightarrow> True | Some (u, r) \<Rightarrow> is_low_surrogate u))"

section \<open>Sample inputs\<close>

text \<open>A runtime for inputs without floats and containers to print.\<close>

definition sample_runtime :: runtime where
  "sample_runtime =
     \<lparr>float_bool = (\<lambda>f. True), float_repr = (\<lambda>f. f), float_json = (\<lambda>f. f),
      container_str = (\<lambda>v. [])\<rparr>"

text \<open>A search result as the API returns it, for a video.\<close>

definition sample_item :: "pystr \<Rightarrow> pyval" where
  "sample_item vid =
     PDict [(str_of ''id'', PDict [(str_of ''kind'', PStr (str_of ''youtube#video'')),
                                   (str_of ''videoId'', PStr vid)]),
            (str_of ''snippet'',
             PDict [(str_of ''title'', PStr (str_of ''<b>Lo-fi</b>'')),
                    (str_of ''channelTitle'', PStr (str_of ''Chill'')),
                    (str_of ''description'', PStr (str_of ''beats to relax to'')),
                    (str_of ''thumbnails'',
                     PDict [(str_of ''default'', PDict [(str_of ''url'', PStr (str_of ''d.jpg''))])])])]"

text \<open>The card the handler builds from it.\<close>

definition sample_card :: "pystr \<Rightarrow> inline_query_result_article" where
  "sample_card vid =
     \<lparr>article_id = PStr vid,
      article_title = PStr (str_of ''<b>Lo-fi</b>''),
      article_description = PStr (str_of ''Chill''),
      thumb_url = PStr (str_of ''d.jpg''),
      input_message_content =
        \<lparr>message_text = html_escape (str_of ''<b>Lo-fi</b>'' @ [10] @ str_of ''https://youtu.be/'' @ vid),
         parse_mode = str_of ''HTML''\<rparr>,
      reply_markup =
        [[\<lparr>button_text = str_of ''Open on YouTube'',
           button_url = str_of ''https://youtu.be/'' @ vid\<rparr>]]\<rparr>"

text \<open>An item of another kind (a channel), whose \<open>id\<close> has no \<open>videoId\<close>.\<close>

definition channel_item :: pyval where
  "channel_item =
     PDict [(str_of ''id'', PDict [(str_of ''kind'', PStr (str_of ''youtube#channel'')),
                                   (str_of ''channelId'', PStr (str_of ''UC1''))]),
            (str_of ''snippet'', PDict [(str_of ''title'', PStr (str_of ''A channel''))])]"

text \<open>A video whose snippet is empty.\<close>

definition bare_item :: pyval where
  "bare_item =
     PDict [(str_of ''id'', PDict [(str_of ''videoId'', PStr (str_of ''abc123''))]),
            (str_of ''snippet'', PDict [])]"

definition sample_items :: "pyval list" where
  "sample_items = [sample_item (str_of ''abc123''), channel_item, sample_item (str_of ''def456'')]"

definition sample_data :: pyval where
  "sample_data =
     PDict [(str_of ''items'', PList sample_items),
            (str_of ''nextPageToken'', PStr (str_of ''TOKEN1''))]"

definition last_page :: pyval where
  "last_page = PDict [(str_of ''items'', PList sample_items)]"

definition sample_snippet :: "(pystr \<times> pyval) list" where
  "sample_snippet =
     [(str_of ''title'', PStr (str_of ''<b>Lo-fi</b>'')),
      (str_of ''channelTitle'', PStr (str_of ''Chill'')),
      (str_of ''description'', PStr (str_of ''beats to relax to'')),
      (str_of ''thumbnails'',
       PDict [(str_of ''default'', PDict [(str_of ''url'', PStr (str_of ''d.jpg''))])])]"

definition sample_env :: "(exn + response) \<Rightarrow> env" where
  "sample_env reply =
     \<lparr>rt = sample_runtime, YOUTUBE_API_KEY = str_of ''KEY'',
      requests_get = (\<lambda>url params timeout. reply)\<rparr>"

text \<open>An item without an \<open>id\<close>.\<close>

definition item_without_id :: pyval where
  "item_without_id =
     PDict [(str_of ''snippet'', PDict [(str_of ''title'', PStr (str_of ''No id''))])]"

section \<open>Evaluating the samples\<close>

lemmas eval_simps =
  str_of_def subscript_def dict_get_def truthy_def slice_to_def py_str_def iterate_def Let_def

lemma item_result_sample:
  "vid \<noteq> [] \<Longrightarrow> item_result sample_runtime (sample_item vid) = Inr (Some (sample_card vid))"
  by (simp add: item_result_def sample_item_def sample_card_def sample_runtime_def eval_simps)

lemma item_result_abc123:
  "item_result sample_runtime (sample_item (str_of ''abc123''))
     = Inr (Some (sample_card (str_of ''abc123'')))"
  by (rule item_result_sample) (simp add: str_of_def)

lemma item_result_channel: "item_result sample_runtime channel_item = Inr None"
  by (simp add: item_result_def channel_item_def sample_runtime_def eval_simps)

lemma item_result_bare:
  "item_result sample_runtime bare_item =
     Inr (Some \<lparr>article_id = PStr (str_of ''abc123''),
                article_title = PStr (str_of ''YouTube video''),
                article_description = PStr [],
                thumb_url = PNone,
                input_message_content =
                  \<lparr>message_text = str_of ''YouTube video'' @ [10] @ str_of ''https://youtu.be/abc123'',
                   parse_mode = str_of ''HTML''\<rparr>,
                reply_markup =
                  [[\<lparr>button_text = str_of ''Open on YouTube'',
                     button_url = str_of ''https://youtu.be/abc123''\<rparr>]]\<rparr>)"
  by (simp add: item_result_def bare_item_def sample_runtime_def eval_simps html_escape_def
        replace_char_def)

lemma item_results_replicate:
  "item_result R it = Inr (Some a) \<Longrightarrow>
   item_results R (replicate n it) acc = Inr (acc @ replicate n a)"
  by (induction n arbitrary: acc) (simp_all add: replicate_app_Cons_same)

lemma item_results_sample:
  "item_results sample_runtime sample_items [] =
     Inr [sample_card (str_of ''abc123''), sample_card (str_of ''def456'')]"
proof -
  have b: "item_result sample_runtime (sample_item (str_of ''def456''))
          = Inr (Some (sample_card (str_of ''def456'')))"
    by (rule item_result_sample) (simp add: str_of_def)
  show ?thesis by (simp add: sample_items_def item_result_abc123 b item_result_channel)
qed

lemma answer_page_last:
  "answer_page sample_runtime (str_of ''cats'') last_page =
     Inr \<lparr>results = [sample_card (str_of ''abc123''), sample_card (str_of ''def456'')],
          is_personal = True, cache_time = 30, next_offset = []\<rparr>"
  using item_results_sample
  by (simp add: answer_page_def last_page_def dict_get_def iterate_def truthy_def str_of_def)

lemma last_page_items:
  "dict_get last_page (str_of ''items'') (PList []) = Inr (PList sample_items)"
  "iterate (PList sample_items) = Inr sample_items"
  "dict_get last_page (str_of ''nextPageToken'') (PStr []) = Inr (PStr [])"
  by (simp_all add: last_page_def dict_get_def iterate_def str_of_def)

lemma video_id_samples:
  "vid \<noteq> [] \<Longrightarrow> video_id sample_runtime (sample_item vid) = Some (PStr vid)"
  "video_id sample_runtime channel_item = None"
  by (simp_all add: video_id_def sample_item_def channel_item_def sample_runtime_def eval_simps)

lemma sample_item_parts:
  "subscript (sample_item vid) (str_of ''snippet'') = Inr (PDict sample_snippet)"
  "subscript (sample_item vid) (str_of ''id'')
     = Inr (PDict [(str_of ''kind'', PStr (str_of ''youtube#video'')), (str_of ''videoId'', PStr vid)])"
  by (simp_all add: sample_item_def sample_snippet_def subscript_def str_of_def)

lemma strip_cats: "strip (str_of ''cats'') = str_of ''cats''"
  by (simp add: strip_def str_of_def is_space_def)

section \<open>The handler\<close>

lemma strip_all_space: "list_all is_space s \<Longrightarrow> strip s = []"
proof -
  assume "list_all is_space s"
  then have h: "dropWhile is_space s = []" by (induction s) auto
  show ?thesis unfolding strip_def h by simp
qed

lemma handler_search_calls:
  "search_calls (inline_query_handler E iq) =
     (let query = strip (case iq_query iq of None \<Rightarrow> [] | Some q \<Rightarrow> q);
          offset = (case iq_offset iq of None \<Rightarrow> [] | Some off \<Rightarrow> off)
      in if query = [] then []
         else [(query,
                if offset \<noteq> [] \<and> fst (decode_offset offset) = PStr query
                then snd (decode_offset offset) else PNone)])"
  by (auto simp: inline_query_handler_def Let_def split: sum.splits prod.splits)

text \<open>
  C6, the empty-query short-circuit. A request whose query is empty or consists of white
  space only makes no call of the upstream search, and is answered with an empty list of
  results and an empty \<open>next_offset\<close> (with a cache time of one second), whatever the
  offset and the environment are.
\<close>

theorem empty_query_short_circuit:
  assumes "list_all is_space (case iq_query iq of None \<Rightarrow> [] | Some q \<Rightarrow> q)"
  shows "inline_query_handler E iq =
           \<lparr>search_calls = [], printed = [],
            outcome = Inr \<lparr>results = [], is_personal = True, cache_time = 1,
                           next_offset = []\<rparr>\<rparr>"
  using strip_all_space[OF assms] by (simp add: inline_query_handler_def Let_def)

theorem empty_query_short_circuit_witness:
  "list_all is_space (str_of ''   '')
   \<and> inline_query_handler
        (sample_env (Inr \<lparr>raise_for_status = None, json = Inr sample_data\<rparr>))
        \<lparr>iq_query = Some (str_of ''   ''), iq_offset = Some (str_of ''abc'')\<rparr>
     = \<lparr>search_calls = [], printed = [],
        outcome = Inr \<lparr>results = [], is_personal = True, cache_time = 1, next_offset = []\<rparr>\<rparr>"
proof -
  have s: "list_all is_space
             (case iq_query \<lparr>iq_query = Some (str_of ''   ''), iq_offset = Some (str_of ''abc'')\<rparr>
              of None \<Rightarrow> [] | Some q \<Rightarrow> q)"
    by (simp add: str_of_def is_space_def)
  show ?thesis
    using empty_query_short_circuit[OF s] s by simp
qed

text \<open>
  C5, failure isolation. When the call of \<open>youtube_search\<close> that the handler makes ends
  with an exception (raised by \<open>requests.get\<close>, by \<open>raise_for_status\<close> or by
  \<open>json\<close>), the handler prints the exception and answers with an empty list of results
  and an empty \<open>next_offset\<close>; no exception leaves the handler.
\<close>

theorem failure_isolation:
  assumes "search_calls (inline_query_handler E iq) = [(query, page_token)]"
    and "youtube_search E query page_token RESULTS_PER_PAGE = Inl e"
  shows "outcome (inline_query_handler E iq) =
           Inr \<lparr>results = [], is_personal = True, cache_time = 1, next_offset = []\<rparr>
         \<and> printed (inline_query_handler E iq) = [e]"
  using assms
  by (auto simp: inline_query_handler_def Let_def split: sum.splits prod.splits if_splits)

theorem failure_isolation_witness:
  "search_calls (inline_query_handler (sample_env (Inl Timeout))
        \<lparr>iq_query = Some (str_of ''cats''), iq_offset = None\<rparr>) = [(str_of ''cats'', PNone)]
   \<and> youtube_search (sample_env (Inl Timeout)) (str_of ''cats'') PNone RESULTS_PER_PAGE = Inl Timeout
   \<and> outcome (inline_query_handler (sample_env (Inl Timeout))
        \<lparr>iq_query = Some (str_of ''cats''), iq_offset = None\<rparr>)
       = Inr \<lparr>results = [], is_personal = True, cache_time = 1, next_offset = []\<rparr>
   \<and> printed (inline_query_handler (sample_env (Inl Timeout))
        \<lparr>iq_query = Some (str_of ''cats''), iq_offset = None\<rparr>) = [Timeout]"
proof -
  have c: "search_calls (inline_query_handler (sample_env (Inl Timeout))
        \<lparr>iq_query = Some (str_of ''cats''), iq_offset = None\<rparr>) = [(str_of ''cats'', PNone)]"
    by (simp add: handler_search_calls strip_cats) (simp add: str_of_def)
  have y: "youtube_search (sample_env (Inl Timeout)) (str_of ''cats'') PNone RESULTS_PER_PAGE
             = Inl Timeout"
    by (simp add: youtube_search_def sample_env_def)
  show ?thesis
    using failure_isolation[OF c y] c y by simp
qed

section \<open>The result page\<close>

text \<open>
  C7, the page-size cap. The claim fails on the code: the loop over the items appends a
  card for every item that has a video identifier and nothing cuts the list down, although
  the constant \<open>RESULTS_PER_PAGE\<close> is introduced as the number of cards of a page. A
  response with fifteen items that each have a video identifier gives fifteen cards, more
  than the page size of ten.
\<close>

theorem page_size_not_capped:
  "(case answer_page sample_runtime (str_of ''cats'')
           (PDict [(str_of ''items'', PList (replicate 15 (sample_item (str_of ''abc123''))))]) of
      Inl e \<Rightarrow> False
    | Inr a \<Rightarrow> length (results a) = 15 \<and> \<not> length (results a) \<le> 10)"
proof -
  have "item_results sample_runtime (replicate 15 (sample_item (str_of ''abc123''))) []
          = Inr (replicate 15 (sample_card (str_of ''abc123'')))"
    using item_results_replicate[OF item_result_abc123, of 15 "[]"] by simp
  then show ?thesis
    by (simp add: answer_page_def dict_get_def iterate_def truthy_def str_of_def)
qed

lemma item_result_SomeD:
  assumes "item_result R it = Inr (Some a)"
  shows "\<exists>ident vid s title channel d desc thumbs fallback chosen thumb.
           subscript it (str_of ''id'') = Inr ident
         \<and> dict_get ident (str_of ''videoId'') PNone = Inr vid
         \<and> truthy R vid
         \<and> subscript it (str_of ''snippet'') = Inr s
         \<and> dict_get s (str_of ''title'') (PStr (str_of ''YouTube video'')) = Inr title
         \<and> dict_get s (str_of ''channelTitle'') (PStr []) = Inr channel
         \<and> dict_get s (str_of ''description'') PNone = Inr d
         \<and> slice_to 120 (if truthy R d then d else PStr []) = Inr desc
         \<and> dict_get s (str_of ''thumbnails'') (PDict []) = Inr thumbs
         \<and> dict_get thumbs (str_of ''default'') (PDict []) = Inr fallback
         \<and> dict_get thumbs (str_of ''medium'') fallback = Inr chosen
         \<and> dict_get chosen (str_of ''url'') PNone = Inr thumb
         \<and> a = \<lparr>article_id = vid,
                 article_title = title,
                 article_description = (if truthy R channel then channel else desc),
                 thumb_url = thumb,
                 input_message_content =
                   \<lparr>message_text =
                      html_escape (py_str R title @ [10] @ str_of ''https://youtu.be/'' @ py_str R vid),
                    parse_mode = str_of ''HTML''\<rparr>,
                 reply_markup =
                   [[\<lparr>button_text = str_of ''Open on YouTube'',
                      button_url = str_of ''https://youtu.be/'' @ py_str R vid\<rparr>]]\<rparr>"
  using assms unfolding item_result_def Let_def
  by (auto split: sum.splits if_splits)

lemma item_result_video_id_Some:
  "item_result R it = Inr (Some a) \<Longrightarrow> video_id R it = Some (article_id a)"
  by (drule item_result_SomeD) (auto simp: video_id_def)

lemma item_result_video_id_None:
  "item_result R it = Inr None \<Longrightarrow> video_id R it = None"
  unfolding item_result_def video_id_def Let_def
  by (auto split: sum.splits if_splits)

lemma item_results_ids:
  "item_results R its acc = Inr cards \<Longrightarrow>
     map article_id cards = map article_id acc @ List.map_filter (video_id R) its"
proof (induction its arbitrary: acc)
  case Nil
  then show ?case by (simp add: List.map_filter_simps)
next
  case (Cons it its)
  show ?case
  proof (cases "item_result R it")
    case (Inl e)
    then show ?thesis using Cons.prems by simp
  next
    case (Inr r)
    show ?thesis
    proof (cases r)
      case None
      then show ?thesis
        using Cons.prems Inr Cons.IH[of acc] item_result_video_id_None[of R it]
        by (simp add: List.map_filter_simps)
    next
      case (Some a)
      then show ?thesis
        using Cons.prems Inr Cons.IH[of "acc @ [a]"] item_result_video_id_Some[of R it a]
        by (simp add: List.map_filter_simps)
    qed
  qed
qed

lemma item_result_skip:
  assumes "subscript it (str_of ''id'') = Inr (PDict ident)"
    and "\<not> truthy R (case map_of ident (str_of ''videoId'') of None \<Rightarrow> PNone | Some v \<Rightarrow> v)"
  shows "item_result R it = Inr None"
  using assms by (simp add: item_result_def dict_get_def)

lemma answer_page_ids:
  assumes "answer_page R query data = Inr a"
    and "dict_get data (str_of ''items'') (PList []) = Inr items"
    and "iterate items = Inr its"
  shows "map article_id (results a) = List.map_filter (video_id R) its"
proof -
  obtain cards where c: "item_results R its [] = Inr cards" and r: "results a = cards"
    using assms by (auto simp: answer_page_def split: sum.splits)
  show ?thesis using item_results_ids[OF c] r by simp
qed

text \<open>
  C8, identifier filtering, as the code has it. An item whose \<open>id\<close> object has no
  \<open>videoId\<close>, or one that counts as false, is skipped by the loop, whatever else the
  item holds. In every page the handler answers with, the cards are, in order, those of
  the items that have a video identifier, each card under the identifier of its item: no
  card without an identifier, no such item without its card.
\<close>

theorem identifier_filtering:
  "(\<forall>ident.
       subscript it (str_of ''id'') = Inr (PDict ident)
       \<and> \<not> truthy R (case map_of ident (str_of ''videoId'') of None \<Rightarrow> PNone | Some v \<Rightarrow> v)
       \<longrightarrow> item_result R it = Inr None)
   \<and> (\<forall>a items its.
         answer_page R query data = Inr a
         \<and> dict_get data (str_of ''items'') (PList []) = Inr items
         \<and> iterate items = Inr its
         \<longrightarrow> map article_id (results a) = List.map_filter (video_id R) its)"
  using item_result_skip[of it _ R] answer_page_ids[of R query data] by blast

theorem identifier_filtering_witness:
  "item_result sample_runtime channel_item = Inr None
   \<and> answer_page sample_runtime (str_of ''cats'') last_page =
       Inr \<lparr>results = [sample_card (str_of ''abc123''), sample_card (str_of ''def456'')],
            is_personal = True, cache_time = 30, next_offset = []\<rparr>
   \<and> map article_id [sample_card (str_of ''abc123''), sample_card (str_of ''def456'')]
       = [PStr (str_of ''abc123''), PStr (str_of ''def456'')]
   \<and> List.map_filter (video_id sample_runtime) sample_items
       = [PStr (str_of ''abc123''), PStr (str_of ''def456'')]"
proof -
  have i: "subscript channel_item (str_of ''id'')
             = Inr (PDict [(str_of ''kind'', PStr (str_of ''youtube#channel'')),
                           (str_of ''channelId'', PStr (str_of ''UC1''))])"
    by (simp add: channel_item_def subscript_def str_of_def)
  have f: "\<not> truthy sample_runtime
               (case map_of [(str_of ''kind'', PStr (str_of ''youtube#channel'')),
                             (str_of ''channelId'', PStr (str_of ''UC1''))] (str_of ''videoId'')
                of None \<Rightarrow> PNone | Some v \<Rightarrow> v)"
    by (simp add: truthy_def str_of_def)
  have t: "item_result sample_runtime channel_item = Inr None"
    and m: "map article_id (results \<lparr>results = [sample_card (str_of ''abc123''),
                                                 sample_card (str_of ''def456'')],
                                      is_personal = True, cache_time = 30, next_offset = []\<rparr>)
            = List.map_filter (video_id sample_runtime) sample_items"
    using identifier_filtering[of channel_item sample_runtime "str_of ''cats''" last_page]
      i f answer_page_last last_page_items(1) last_page_items(2)
    by blast+
  show ?thesis using t m answer_page_last by (simp add: sample_card_def)
qed

text \<open>
  The claim as the specification states it fails: an item that has no \<open>id\<close> at all is
  not left out of the page. The loop raises \<open>KeyError\<close> at it, the exception leaves the
  handler, and no page is produced, not even with the card of the item before it.
\<close>

theorem identifier_filtering_counterexample:
  "answer_page sample_runtime (str_of ''cats'')
     (PDict [(str_of ''items'', PList [sample_item (str_of ''abc123''), item_without_id])])
     = Inl KeyError"
proof -
  have "item_result sample_runtime item_without_id = Inl KeyError"
    by (simp add: item_result_def item_without_id_def subscript_def str_of_def)
  then have "item_results sample_runtime [sample_item (str_of ''abc123''), item_without_id] []
               = Inl KeyError"
    by (simp add: item_result_abc123)
  then show ?thesis
    by (simp add: answer_page_def dict_get_def iterate_def str_of_def)
qed

text \<open>
  C9, the mapping defaults, as the code has them. The title of a card is the \<open>title\<close> of
  the snippet, and \<open>YouTube video\<close> when the snippet has none. The description is the
  \<open>channelTitle\<close> when the snippet has one that counts as true, and otherwise the first
  120 characters of the \<open>description\<close>, the empty string when that is missing or empty.
\<close>

theorem mapping_defaults:
  assumes "item_result R it = Inr (Some a)"
    and "subscript it (str_of ''snippet'') = Inr (PDict s)"
    and "channel = (case map_of s (str_of ''channelTitle'') of None \<Rightarrow> PStr [] | Some c \<Rightarrow> c)"
    and "d = (case map_of s (str_of ''description'') of None \<Rightarrow> PNone | Some x \<Rightarrow> x)"
  shows "article_title a =
           (case map_of s (str_of ''title'') of
              None \<Rightarrow> PStr (str_of ''YouTube video'')
            | Some t \<Rightarrow> t)
         \<and> Inr (article_description a) =
             (if truthy R channel then Inr channel
              else slice_to 120 (if truthy R d then d else PStr []))"
  using item_result_SomeD[OF assms(1)] assms(2-4)
  by (auto simp: dict_get_def)

theorem mapping_defaults_witness:
  "article_title (sample_card (str_of ''abc123'')) = PStr (str_of ''<b>Lo-fi</b>'')
   \<and> article_description (sample_card (str_of ''abc123'')) = PStr (str_of ''Chill'')
   \<and> truthy sample_runtime (PStr (str_of ''Chill''))"
  using mapping_defaults[OF item_result_abc123 sample_item_parts(1) refl refl]
  by (simp add: sample_snippet_def str_of_def truthy_def)

text \<open>
  The claim as the specification states it fails: for a video whose snippet has no title,
  the title of the card is \<open>YouTube video\<close>, not \<open>untitled\<close>.
\<close>

theorem mapping_defaults_counterexample:
  "(case item_result sample_runtime bare_item of
      Inr (Some a) \<Rightarrow>
        article_title a = PStr (str_of ''YouTube video'')
        \<and> article_title a \<noteq> PStr (str_of ''untitled'')
    | _ \<Rightarrow> False)"
  by (simp add: item_result_bare) (simp add: str_of_def)

lemma replace_char_set:
  "set (replace_char c new s) = (set s - {c}) \<union> (if c \<in> set s then set new else {})"
  by (induction s) (auto simp: replace_char_def)

lemma html_escape_no_markup:
  "60 \<notin> set (html_escape s) \<and> 62 \<notin> set (html_escape s)
   \<and> 34 \<notin> set (html_escape s) \<and> 39 \<notin> set (html_escape s)"
  by (auto simp: html_escape_def replace_char_set str_of_def split: if_splits)

text \<open>
  C10, the inserted message. For an item with a video identifier, the loop builds a card
  unless it raises, and the text that the card inserts on selection is \<open>html.escape\<close>
  of the title of the item, a line feed and the URL \<open>https://youtu.be/\<close> followed by
  the video identifier; it is sent with the parse mode \<open>HTML\<close>, and it contains neither
  \<open><\<close> nor \<open>>\<close>, so that no markup of a title reaches the chat.
\<close>

theorem inserted_message_content:
  assumes "subscript it (str_of ''id'') = Inr (PDict ident)"
    and "map_of ident (str_of ''videoId'') = Some vid"
    and "truthy R vid"
    and "subscript it (str_of ''snippet'') = Inr (PDict s)"
    and "title = (case map_of s (str_of ''title'') of
                    None \<Rightarrow> PStr (str_of ''YouTube video'') | Some t \<Rightarrow> t)"
    and "item_result R it = Inr r"
  shows "\<exists>a. r = Some a
           \<and> message_text (input_message_content a) =
               html_escape (py_str R title @ [10] @ str_of ''https://youtu.be/'' @ py_str R vid)
           \<and> parse_mode (input_message_content a) = str_of ''HTML''
           \<and> 60 \<notin> set (message_text (input_message_content a))
           \<and> 62 \<notin> set (message_text (input_message_content a))"
proof (cases r)
  case None
  then show ?thesis
    using assms by (auto simp: item_result_def dict_get_def Let_def split: sum.splits)
next
  case (Some a)
  then have "item_result R it = Inr (Some a)" using assms(6) by simp
  from item_result_SomeD[OF this] show ?thesis
    using assms(1-5) Some html_escape_no_markup by (auto simp: dict_get_def)
qed

theorem inserted_message_content_witness:
  "(case item_result sample_runtime (sample_item (str_of ''abc123'')) of
      Inr (Some a) \<Rightarrow>
        message_text (input_message_content a)
          = str_of ''&lt;b&gt;Lo-fi&lt;/b&gt;'' @ [10] @ str_of ''https://youtu.be/abc123''
        \<and> parse_mode (input_message_content a) = str_of ''HTML''
        \<and> 60 \<notin> set (message_text (input_message_content a))
        \<and> 62 \<notin> set (message_text (input_message_content a))
    | _ \<Rightarrow> False)"
proof -
  have e: "html_escape (str_of ''<b>Lo-fi</b>'' @ [10] @ str_of ''https://youtu.be/abc123'')
             = str_of ''&lt;b&gt;Lo-fi&lt;/b&gt;'' @ [10] @ str_of ''https://youtu.be/abc123''"
    by (simp add: html_escape_def replace_char_def str_of_def)
  have v: "map_of [(str_of ''kind'', PStr (str_of ''youtube#video'')),
                   (str_of ''videoId'', PStr (str_of ''abc123''))] (str_of ''videoId'')
             = Some (PStr (str_of ''abc123''))"
    by (simp add: str_of_def)
  have t: "truthy sample_runtime (PStr (str_of ''abc123''))"
    by (simp add: truthy_def str_of_def)
  obtain r where r: "item_result sample_runtime (sample_item (str_of ''abc123'')) = Inr r"
    using item_result_abc123 by simp
  obtain a where a: "r = Some a"
    and m: "message_text (input_message_content a) =
              html_escape (py_str sample_runtime
                              (case map_of sample_snippet (str_of ''title'') of
                                 None \<Rightarrow> PStr (str_of ''YouTube video'') | Some t \<Rightarrow> t)
                           @ [10] @ str_of ''https://youtu.be/''
                           @ py_str sample_runtime (PStr (str_of ''abc123'')))"
    and p: "parse_mode (input_message_content a) = str_of ''HTML''"
    and n: "60 \<notin> set (message_text (input_message_content a))"
           "62 \<notin> set (message_text (input_message_content a))"
    using inserted_message_content[OF sample_item_parts(2) v t sample_item_parts(1) refl r]
    by blast
  have "message_text (input_message_content a)
          = str_of ''&lt;b&gt;Lo-fi&lt;/b&gt;'' @ [10] @ str_of ''https://youtu.be/abc123''"
    using m e by (simp add: sample_snippet_def py_str_def str_of_def)
  then show ?thesis using r a p n by simp
qed

section \<open>UTF-8 and Base64 on ASCII text\<close>

lemma str_encode_ascii: "list_all (\<lambda>c. c < 128) s \<Longrightarrow> str_encode s = Inr s"
  by (induction s) (auto simp: utf8_encode_char_def)

lemma bytes_decode_ascii: "list_all (\<lambda>c. c < 128) s \<Longrightarrow> bytes_decode s = Inr s"
  by (induction s) auto

lemma b64_char_not_pad: "b64_char i \<noteq> 61"
  by (auto simp: b64_char_def)

lemma b64_char_ascii: "b64_char i < 128"
  by (auto simp: b64_char_def)

lemma b64_value_char: "i < 64 \<Longrightarrow> b64_value (b64_char i) = Some i"
  by (auto simp: b64_value_def b64_char_def)

lemma urlsafe_translation_char:
  "urlsafe_decode_translation (urlsafe_encode_translation (b64_char i)) = b64_char i"
  by (auto simp: urlsafe_decode_translation_def urlsafe_encode_translation_def b64_char_def)

lemma urlsafe_translation_pad:
  "urlsafe_decode_translation (urlsafe_encode_translation 61) = 61"
  by (simp add: urlsafe_decode_translation_def urlsafe_encode_translation_def)

lemma urlsafe_translation_b2a:
  "map (\<lambda>c. urlsafe_decode_translation (urlsafe_encode_translation c)) (b2a_base64 bs)
     = b2a_base64 bs"
  by (induction bs rule: b2a_base64.induct)
     (simp_all add: urlsafe_translation_char urlsafe_translation_pad)

lemma urlsafe_encode_translation_ascii: "c < 128 \<Longrightarrow> urlsafe_encode_translation c < 128"
  by (simp add: urlsafe_encode_translation_def)

lemma b2a_base64_ascii: "list_all (\<lambda>c. c < 128) (b2a_base64 bs)"
  by (induction bs rule: b2a_base64.induct) (simp_all add: b64_char_ascii)

lemma urlsafe_b64encode_ascii: "list_all (\<lambda>c. c < 128) (urlsafe_b64encode bs)"
  using b2a_base64_ascii[of bs]
  by (auto simp: urlsafe_b64encode_def list_all_iff urlsafe_encode_translation_ascii)

lemma a2b_base64_char:
  "i < 64 \<Longrightarrow>
   a2b_base64 (b64_char i # cs) q l p out =
     (if q = 0 then a2b_base64 cs 1 i 0 out
      else if q = 1 then a2b_base64 cs 2 (i mod 16) 0 (out @ [l * 4 + i div 16])
      else if q = 2 then a2b_base64 cs 3 (i mod 4) 0 (out @ [l * 16 + i div 4])
      else a2b_base64 cs 0 0 0 (out @ [l * 64 + i]))"
  by (simp add: b64_char_not_pad b64_value_char)

lemma a2b_base64_pad:
  "a2b_base64 (61 # cs) q l p out =
     (if 2 \<le> q \<and> 4 \<le> q + (p + 1) then Inr out
      else a2b_base64 cs q l (if 2 \<le> q then p + 1 else p) out)"
  by simp

lemma a2b_b2a:
  "list_all (\<lambda>b. b < 256) bs \<Longrightarrow> a2b_base64 (b2a_base64 bs) 0 l p out = Inr (out @ bs)"
proof (induction bs arbitrary: l p out rule: b2a_base64.induct)
  case (1 a b c rest)
  then have lt: "a < 256" "b < 256" "c < 256" and r: "list_all (\<lambda>b. b < 256) rest"
    by simp_all
  have i: "a div 4 < 64" "(a mod 4) * 16 + b div 16 < 64" "(b mod 16) * 4 + c div 64 < 64"
      "c mod 64 < 64"
    using lt by auto
  have v: "a div 4 * 4 + ((a mod 4) * 16 + b div 16) div 16 = a"
      "((a mod 4) * 16 + b div 16) mod 16 * 16 + ((b mod 16) * 4 + c div 64) div 4 = b"
      "((b mod 16) * 4 + c div 64) mod 4 * 64 + c mod 64 = c"
    using lt by simp_all
  show ?case
    using "1.IH"[OF r] i v
    by (simp add: a2b_base64_char del: a2b_base64.simps)
next
  case (2 a b)
  then have lt: "a < 256" "b < 256" by simp_all
  have i: "a div 4 < 64" "(a mod 4) * 16 + b div 16 < 64" "(b mod 16) * 4 < 64"
    using lt by auto
  have v: "a div 4 * 4 + ((a mod 4) * 16 + b div 16) div 16 = a"
      "((a mod 4) * 16 + b div 16) mod 16 * 16 + ((b mod 16) * 4) div 4 = b"
    using lt by simp_all
  show ?case
    using i v
    by (simp add: a2b_base64_char a2b_base64_pad del: a2b_base64.simps)
next
  case (3 a)
  then have lt: "a < 256" by simp
  have i: "a div 4 < 64" "(a mod 4) * 16 < 64"
    using lt by auto
  have v: "a div 4 * 4 + ((a mod 4) * 16) div 16 = a"
    by simp
  show ?case
    using i v
    by (simp add: a2b_base64_char a2b_base64_pad del: a2b_base64.simps)
next
  case 4
  then show ?case by simp
qed

lemma urlsafe_b64_roundtrip:
  "list_all (\<lambda>b. b < 256) bs \<Longrightarrow> urlsafe_b64decode (urlsafe_b64encode bs) = Inr bs"
  using a2b_b2a[of bs 0 0 "[]"]
  by (simp add: urlsafe_b64decode_def urlsafe_b64encode_def urlsafe_translation_b2a o_def)

section \<open>Reading back an escaped string\<close>

lemma hex_value_digit: "d < 16 \<Longrightarrow> hex_value (hex_digit d) = Some d"
  by (auto simp: hex_value_def hex_digit_def)

lemma hex_value_digit_mod: "hex_value (hex_digit (k mod 16)) = Some (k mod 16)"
  by (rule hex_value_digit) simp

lemma hex_digit_ascii: "d < 16 \<Longrightarrow> hex_digit d < 128"
  by (auto simp: hex_digit_def)

lemma hex4_algebra:
  "m0 = 16 * q1 + q0 \<Longrightarrow> m1 = 256 * q2 + m0 \<Longrightarrow> n = 4096 * q3 + m1 \<Longrightarrow>
   ((q3 * 16 + q2) * 16 + q1) * 16 + q0 = (n::nat)"
  by simp

lemma hex4_digits:
  fixes n :: nat
  assumes "n < 65536"
  shows "((n div 4096 mod 16 * 16 + n div 256 mod 16) * 16 + n div 16 mod 16) * 16 + n mod 16 = n"
proof -
  have a: "n mod 256 = 16 * (n div 16 mod 16) + n mod 16"
    using mod_mult2_eq[of n 16 16] by simp
  have b: "n mod 4096 = 256 * (n div 256 mod 16) + n mod 256"
    using mod_mult2_eq[of n 256 16] by simp
  have c: "n = 4096 * (n div 4096 mod 16) + n mod 4096"
    using assms by simp
  show ?thesis by (rule hex4_algebra[OF a b c])
qed

lemma read_hex4_digits:
  assumes "n < 65536"
  shows "read_hex4 (hex_digit (n div 4096 mod 16) # hex_digit (n div 256 mod 16)
                      # hex_digit (n div 16 mod 16) # hex_digit (n mod 16) # rest)
           = Some (n, rest)"
proof -
  have "hex4_value (hex_digit (n div 4096 mod 16)) (hex_digit (n div 256 mod 16))
          (hex_digit (n div 16 mod 16)) (hex_digit (n mod 16)) = Some n"
    unfolding hex4_value_def
    by (simp only: hex_value_digit_mod hex4_digits[OF assms] prod.case option.case)
  then show ?thesis by (simp add: read_hex4_def)
qed

lemma unicode_escape_digits:
  assumes "n < 65536" and "\<not> joins_next n tail"
  shows "unicode_escape (hex_digit (n div 4096 mod 16) # hex_digit (n div 256 mod 16)
                      # hex_digit (n div 16 mod 16) # hex_digit (n mod 16) # tail)
           = Inr (n, tail)"
  using assms(2)
  by (auto simp: unicode_escape_def read_hex4_digits[OF assms(1)] joins_next_def
           split: option.splits)

lemma string_item_u_escape:
  assumes "n < 65536" and "\<not> joins_next n tail"
  shows "string_item (u_escape n @ tail) = Inr (Some n, tail)"
  by (simp add: string_item_def u_escape_def unicode_escape_digits[OF assms])

lemma string_item_escape_bmp:
  assumes "c < 65536" and "\<not> joins_next c tail"
  shows "string_item (ascii_escape_char c @ tail) = Inr (Some c, tail)"
proof -
  consider (short) "c = 34 \<or> c = 92 \<or> c = 10 \<or> c = 13 \<or> c = 9 \<or> c = 8 \<or> c = 12"
    | (plain) "c \<noteq> 34" "c \<noteq> 92" "32 \<le> c" "c \<le> 126"
    | (esc) "c \<noteq> 34" "c \<noteq> 92" "c \<noteq> 10" "c \<noteq> 13" "c \<noteq> 9" "c \<noteq> 8" "c \<noteq> 12"
        "\<not> (32 \<le> c \<and> c \<le> 126)"
    by linarith
  then show ?thesis
  proof cases
    case short
    then show ?thesis
      by (auto simp: ascii_escape_char_def string_item_def backslash_def)
  next
    case plain
    then show ?thesis
      by (auto simp: ascii_escape_char_def string_item_def)
  next
    case esc
    then have "ascii_escape_char c = u_escape c"
      using assms(1) by (auto simp: ascii_escape_char_def)
    then show ?thesis using string_item_u_escape[OF assms] by simp
  qed
qed

lemma surrogate_halves:
  assumes "65536 \<le> c" and "c < 1114112"
  shows "is_high_surrogate (55296 + (c - 65536) div 1024 mod 1024)"
    and "is_low_surrogate (56320 + (c - 65536) mod 1024)"
    and "join_surrogates (55296 + (c - 65536) div 1024 mod 1024) (56320 + (c - 65536) mod 1024) = c"
    and "55296 + (c - 65536) div 1024 mod 1024 < 65536"
    and "56320 + (c - 65536) mod 1024 < 65536"
    and "\<not> is_low_surrogate (55296 + (c - 65536) div 1024 mod 1024)"
proof -
  have d: "(c - 65536) div 1024 < 1024" using assms by simp
  then have m: "(c - 65536) div 1024 mod 1024 = (c - 65536) div 1024" by simp
  have l: "(c - 65536) mod 1024 < 1024" by simp
  show "is_high_surrogate (55296 + (c - 65536) div 1024 mod 1024)"
    using d unfolding m is_high_surrogate_def by simp
  show "is_low_surrogate (56320 + (c - 65536) mod 1024)"
    using l unfolding is_low_surrogate_def by simp
  have "(c - 65536) div 1024 * 1024 + (c - 65536) mod 1024 = c - 65536" by simp
  then show "join_surrogates (55296 + (c - 65536) div 1024 mod 1024)
               (56320 + (c - 65536) mod 1024) = c"
    using assms unfolding m join_surrogates_def by simp
  show "55296 + (c - 65536) div 1024 mod 1024 < 65536" using d unfolding m by simp
  show "56320 + (c - 65536) mod 1024 < 65536" using l by simp
  show "\<not> is_low_surrogate (55296 + (c - 65536) div 1024 mod 1024)"
    using d unfolding m is_low_surrogate_def by simp
qed

lemma string_item_escape_astral:
  assumes "65536 \<le> c" and "c < 1114112"
  shows "string_item (ascii_escape_char c @ tail) = Inr (Some c, tail)"
proof -
  define hi where "hi = 55296 + (c - 65536) div 1024 mod 1024"
  define lo where "lo = 56320 + (c - 65536) mod 1024"
  have h: "is_high_surrogate hi" "is_low_surrogate lo" "join_surrogates hi lo = c"
      "hi < 65536" "lo < 65536"
    using surrogate_halves[OF assms] by (simp_all add: hi_def lo_def)
  have e: "ascii_escape_char c = u_escape hi @ u_escape lo"
    using assms by (simp add: ascii_escape_char_def hi_def lo_def)
  have r1: "read_hex4 (drop 2 (u_escape hi) @ u_escape lo @ tail) = Some (hi, u_escape lo @ tail)"
    using read_hex4_digits[OF h(4)] by (simp add: u_escape_def)
  have r2: "read_hex4 (drop 2 (u_escape lo @ tail)) = Some (lo, tail)"
    using read_hex4_digits[OF h(5)] by (simp add: u_escape_def)
  have l: "6 \<le> length (u_escape lo @ tail)" "take 2 (u_escape lo @ tail) = [92, 117]"
    by (simp_all add: u_escape_def)
  have "unicode_escape (drop 2 (u_escape hi) @ u_escape lo @ tail) = Inr (c, tail)"
    unfolding unicode_escape_def using r1 r2 l h(1-3) by simp
  moreover have "u_escape hi @ u_escape lo @ tail = 92 # 117 # drop 2 (u_escape hi) @ u_escape lo @ tail"
    by (simp add: u_escape_def)
  ultimately have "string_item (92 # 117 # drop 2 (u_escape hi) @ u_escape lo @ tail) = Inr (Some c, tail)"
    by (simp add: string_item_def)
  then show ?thesis
    unfolding e by (simp add: u_escape_def)
qed

lemma not_joins_next_quote: "\<not> joins_next c (34 # rest)"
  by (simp add: joins_next_def)

lemma not_joins_next_head: "x \<noteq> 92 \<Longrightarrow> \<not> joins_next c (x # rest)"
  by (simp add: joins_next_def)

lemma not_joins_next_second: "y \<noteq> 117 \<Longrightarrow> \<not> joins_next c (x # y # rest)"
  by (simp add: joins_next_def)

lemma not_joins_next_u_escape:
  assumes "n < 65536" and "\<not> is_low_surrogate n"
  shows "\<not> joins_next c (u_escape n @ tail)"
proof -
  have "read_hex4 (drop 2 (u_escape n @ tail)) = Some (n, tail)"
    using read_hex4_digits[OF assms(1)] by (simp add: u_escape_def)
  then show ?thesis using assms(2) by (simp add: joins_next_def)
qed

lemma not_joins_next_escape:
  assumes "\<not> is_low_surrogate b" and "b < 1114112"
  shows "\<not> joins_next c (ascii_escape_char b @ tail)"
proof (cases "b = 34 \<or> b = 92 \<or> b = 10 \<or> b = 13 \<or> b = 9 \<or> b = 8 \<or> b = 12")
  case True
  then obtain y where "y \<noteq> 117" "ascii_escape_char b = [92, y]"
    by (auto simp: ascii_escape_char_def)
  then show ?thesis by (simp add: not_joins_next_second)
next
  case short: False
  show ?thesis
  proof (cases "32 \<le> b \<and> b \<le> 126")
    case True
    then have "ascii_escape_char b = [b]" "b \<noteq> 92"
      using short by (simp_all add: ascii_escape_char_def)
    then show ?thesis by (simp add: not_joins_next_head)
  next
    case plain: False
    show ?thesis
    proof (cases "b < 65536")
      case True
      then have "ascii_escape_char b = u_escape b"
        using short plain by (auto simp: ascii_escape_char_def)
      then show ?thesis using not_joins_next_u_escape[OF True assms(1)] by simp
    next
      case False
      then have astral: "65536 \<le> b" by simp
      define hi where "hi = 55296 + (b - 65536) div 1024 mod 1024"
      define lo where "lo = 56320 + (b - 65536) mod 1024"
      have h: "hi < 65536" "\<not> is_low_surrogate hi"
        using surrogate_halves[OF astral assms(2)] by (simp_all add: hi_def)
      have e: "ascii_escape_char b = u_escape hi @ u_escape lo"
        using astral by (simp add: ascii_escape_char_def hi_def lo_def)
      show ?thesis
        using not_joins_next_u_escape[OF h, of c "u_escape lo @ tail"] by (simp add: e)
    qed
  qed
qed

lemma scanstring_quote: "scanstring (34 # rest) acc = Inr (acc, rest)"
  by (simp add: scanstring.simps[of "34 # rest"] string_item_def)

lemma scanstring_escaped:
  "is_str s \<Longrightarrow> no_surrogate_pair s \<Longrightarrow>
   scanstring (concat (map ascii_escape_char s) @ 34 # rest) acc = Inr (acc @ s, rest)"
proof (induction s arbitrary: acc)
  case Nil
  show ?case by (simp add: scanstring_quote)
next
  case (Cons c cs)
  define tail where "tail = concat (map ascii_escape_char cs) @ 34 # rest"
  have c: "c < 1114112" and cs: "is_str cs"
    using Cons.prems(1) by (simp_all add: is_str_def)
  have np: "no_surrogate_pair cs"
    using Cons.prems(2) by (cases cs) simp_all
  have nj: "\<not> joins_next c tail"
  proof (cases cs)
    case Nil
    then show ?thesis by (simp add: tail_def not_joins_next_quote)
  next
    case (Cons b bs)
    show ?thesis
    proof (cases "is_high_surrogate c")
      case True
      then have "\<not> is_low_surrogate b"
        using Cons.prems(2) Cons by simp
      moreover have "b < 1114112" using cs Cons by (simp add: is_str_def)
      ultimately show ?thesis
        using not_joins_next_escape[of b c "concat (map ascii_escape_char bs) @ 34 # rest"]
        by (simp add: tail_def Cons)
    next
      case False
      then show ?thesis by (simp add: joins_next_def)
    qed
  qed
  have item: "string_item (ascii_escape_char c @ tail) = Inr (Some c, tail)"
  proof (cases "c < 65536")
    case True
    then show ?thesis using nj by (rule string_item_escape_bmp)
  next
    case False
    then show ?thesis using c by (simp add: string_item_escape_astral)
  qed
  have "scanstring (ascii_escape_char c @ tail) acc = scanstring tail (acc @ [c])"
    by (subst scanstring.simps) (simp add: item)
  also have "\<dots> = Inr ((acc @ [c]) @ cs, rest)"
    unfolding tail_def by (rule Cons.IH[OF cs np])
  finally show ?case by (simp add: tail_def)
qed

section \<open>Reading back the payload\<close>

lemma u_escape_ascii: "list_all (\<lambda>c. c < 128) (u_escape n)"
  by (simp add: u_escape_def hex_digit_ascii)

lemma ascii_escape_char_ascii: "list_all (\<lambda>c. c < 128) (ascii_escape_char c)"
  by (auto simp: ascii_escape_char_def u_escape_ascii)

lemma encode_basestring_ascii_ascii: "list_all (\<lambda>c. c < 128) (encode_basestring_ascii s)"
  by (induction s) (simp_all add: encode_basestring_ascii_def ascii_escape_char_ascii)

lemma scan_once_string:
  assumes "is_str s" and "no_surrogate_pair s"
  shows "scan_once (encode_basestring_ascii s @ rest) = Inr (PStr s, rest)"
  using scanstring_escaped[OF assms, of rest "[]"]
  by (simp add: encode_basestring_ascii_def scan_once.simps)

lemma skip_ws_not_ws: "\<not> is_ws c \<Longrightarrow> skip_ws (c # cs) = c # cs"
  by (simp add: skip_ws_def)

lemma skip_ws_space: "skip_ws (32 # cs) = skip_ws cs"
  by (simp add: skip_ws_def is_ws_def)

lemma skip_ws_string: "skip_ws (encode_basestring_ascii s @ rest) = encode_basestring_ascii s @ rest"
  by (simp add: encode_basestring_ascii_def skip_ws_def is_ws_def)

lemma no_surrogate_pair_below:
  "list_all (\<lambda>c. c < 55296) s \<Longrightarrow> no_surrogate_pair s"
  by (induction s rule: no_surrogate_pair.induct) (simp_all add: is_high_surrogate_def)

lemma scanstring_key:
  assumes "list_all (\<lambda>c. 32 \<le> c \<and> c \<le> 126 \<and> c \<noteq> 34 \<and> c \<noteq> 92) k"
  shows "scanstring (k @ 34 # rest) [] = Inr (k, rest)"
proof -
  have "concat (map ascii_escape_char k) = k"
    using assms by (induction k) (auto simp: ascii_escape_char_def)
  moreover have "is_str k"
    using assms by (auto simp: is_str_def list_all_iff)
  moreover have "no_surrogate_pair k"
    using assms by (intro no_surrogate_pair_below) (auto simp: list_all_iff)
  ultimately show ?thesis using scanstring_escaped[of k rest "[]"] by simp
qed

text \<open>One member of an object, followed by a comma or by the closing brace.\<close>

lemma parse_object_member:
  assumes key: "scanstring r [] = Inr (key, 58 # 32 # vtext @ d # rest)"
    and val: "scan_once (vtext @ d # rest) = Inr (v, d # rest)"
    and ws: "skip_ws (vtext @ d # rest) = vtext @ d # rest"
    and ne: "vtext \<noteq> []"
    and d: "d = 44 \<or> d = 125"
  shows "parse_object (34 # r) pairs =
           (if d = 125 then Inr (PDict (AList.update key v pairs), rest)
            else parse_object (skip_ws rest) (AList.update key v pairs))"
proof -
  have c: "skip_ws (58 # 32 # vtext @ d # rest) = 58 # 32 # vtext @ d # rest"
    by (simp add: skip_ws_not_ws is_ws_def)
  have s: "skip_ws (32 # vtext @ d # rest) = vtext @ d # rest"
    using ws by (simp add: skip_ws_space)
  have dd: "skip_ws (d # rest) = d # rest"
    using d by (auto simp: skip_ws_not_ws is_ws_def)
  have l: "length (d # rest) < length (vtext @ d # rest)"
    using ne by (cases vtext) simp_all
  show ?thesis
    using d l by (subst parse_object.simps) (auto simp: key c s val dd)
qed

lemma json_loads_payload:
  assumes "is_str Q" and "no_surrogate_pair Q"
    and tok: "scan_once (ttext @ [125]) = Inr (tv, [125])"
    and ws: "skip_ws (ttext @ [125]) = ttext @ [125]"
    and ne: "ttext \<noteq> []"
  shows "json_loads ([123, 34, 113, 34, 58, 32] @ encode_basestring_ascii Q
                      @ [44, 32, 34] @ str_of ''pageToken'' @ [34, 58, 32] @ ttext @ [125])
           = Inr (PDict [([113], PStr Q), (str_of ''pageToken'', tv)])"
proof -
  define tQ where "tQ = encode_basestring_ascii Q"
  define r2 where "r2 = 32 # 34 # str_of ''pageToken'' @ 34 # 58 # 32 # ttext @ [125]"
  have k1: "scanstring (113 # 34 # 58 # 32 # tQ @ 44 # r2) [] = Inr ([113], 58 # 32 # tQ @ 44 # r2)"
    using scanstring_key[of "[113]" "58 # 32 # tQ @ 44 # r2"] by simp
  have v1: "scan_once (tQ @ 44 # r2) = Inr (PStr Q, 44 # r2)"
    unfolding tQ_def by (rule scan_once_string[OF assms(1,2)])
  have w1: "skip_ws (tQ @ 44 # r2) = tQ @ 44 # r2"
    unfolding tQ_def by (rule skip_ws_string)
  have n1: "tQ \<noteq> []" by (simp add: tQ_def encode_basestring_ascii_def)
  have m1: "parse_object (34 # 113 # 34 # 58 # 32 # tQ @ 44 # r2) []
              = parse_object (skip_ws r2) (AList.update [113] (PStr Q) [])"
    using parse_object_member[OF k1 v1 w1 n1, of "[]"] by simp
  have s2: "skip_ws r2 = 34 # str_of ''pageToken'' @ 34 # 58 # 32 # ttext @ [125]"
    by (simp add: r2_def skip_ws_space skip_ws_not_ws is_ws_def)
  have k2: "scanstring (str_of ''pageToken'' @ 34 # 58 # 32 # ttext @ [125]) []
              = Inr (str_of ''pageToken'', 58 # 32 # ttext @ [125])"
    by (rule scanstring_key) (simp add: str_of_def)
  have m2: "parse_object (34 # str_of ''pageToken'' @ 34 # 58 # 32 # ttext @ [125]) pairs
              = Inr (PDict (AList.update (str_of ''pageToken'') tv pairs), [])" for pairs
    using parse_object_member[OF k2 tok ws ne, of pairs] by simp
  have "scan_once (123 # 34 # 113 # 34 # 58 # 32 # tQ @ 44 # r2)
          = Inr (PDict [([113], PStr Q), (str_of ''pageToken'', tv)], [])"
    by (subst scan_once.simps)
       (simp add: skip_ws_not_ws is_ws_def m1 s2 m2, simp add: str_of_def)
  then show ?thesis
    by (simp add: json_loads_def starts_with_def skip_ws_not_ws is_ws_def tQ_def r2_def
          skip_ws_def)
qed

lemma json_dumps_payload:
  "json_dumps R (PDict [(str_of ''q'', PStr Q), (str_of ''pageToken'', tok)])
     = [123, 34, 113, 34, 58, 32] @ encode_basestring_ascii Q
       @ [44, 32, 34] @ str_of ''pageToken'' @ [34, 58, 32] @ json_dumps R tok @ [125]"
  by (simp add: encode_basestring_ascii_def ascii_escape_char_def str_of_def)

lemma json_dumps_payload_ascii:
  assumes "list_all (\<lambda>c. c < 128) (json_dumps R tok)"
  shows "list_all (\<lambda>c. c < 128)
           (json_dumps R (PDict [(str_of ''q'', PStr Q), (str_of ''pageToken'', tok)]))"
  unfolding json_dumps_payload
  using assms encode_basestring_ascii_ascii[of Q] by (simp add: str_of_def)

lemma ascii_bytes: "list_all (\<lambda>c. c < 128) s \<Longrightarrow> list_all (\<lambda>b. b < 256) (s :: pybytes)"
  by (induction s) auto

lemma encode_offset_ascii:
  assumes "list_all (\<lambda>c. c < 128) (json_dumps R tok)"
  shows "encode_offset R Q tok
           = Inr (urlsafe_b64encode
                    (json_dumps R (PDict [(str_of ''q'', PStr Q), (str_of ''pageToken'', tok)])))"
  using str_encode_ascii[OF json_dumps_payload_ascii[OF assms, of Q]]
    bytes_decode_ascii[OF urlsafe_b64encode_ascii]
  by (simp add: encode_offset_def Let_def)

lemma decode_offset_try_b64:
  assumes "list_all (\<lambda>c. c < 128) d"
  shows "decode_offset_try (urlsafe_b64encode d) =
           (case json_loads d of
              Inl e \<Rightarrow> Inl e
            | Inr obj \<Rightarrow>
                (case dict_get obj (str_of ''q'') PNone of
                   Inl e \<Rightarrow> Inl e
                 | Inr q \<Rightarrow>
                     (case dict_get obj (str_of ''pageToken'') PNone of
                        Inl e \<Rightarrow> Inl e
                      | Inr t \<Rightarrow> Inr (q, t))))"
  using str_encode_ascii[OF urlsafe_b64encode_ascii, of d]
    urlsafe_b64_roundtrip[OF ascii_bytes[OF assms]] bytes_decode_ascii[OF assms]
  by (simp add: decode_offset_try_def)

lemma decode_encode_offset:
  assumes "is_str Q" and "no_surrogate_pair Q"
    and a: "list_all (\<lambda>c. c < 128) (json_dumps R tok)"
    and tok: "scan_once (json_dumps R tok @ [125]) = Inr (tv, [125])"
    and ws: "skip_ws (json_dumps R tok @ [125]) = json_dumps R tok @ [125]"
    and ne: "json_dumps R tok \<noteq> []"
  shows "\<exists>cursor. encode_offset R Q tok = Inr cursor \<and> decode_offset cursor = (PStr Q, tv)"
proof -
  define d where "d = json_dumps R (PDict [(str_of ''q'', PStr Q), (str_of ''pageToken'', tok)])"
  have e: "encode_offset R Q tok = Inr (urlsafe_b64encode d)"
    unfolding d_def by (rule encode_offset_ascii[OF a])
  have l: "json_loads d = Inr (PDict [([113], PStr Q), (str_of ''pageToken'', tv)])"
    unfolding d_def json_dumps_payload
    by (rule json_loads_payload[OF assms(1,2) tok ws ne])
  have "list_all (\<lambda>c. c < 128) d"
    unfolding d_def by (rule json_dumps_payload_ascii[OF a])
  then have "decode_offset_try (urlsafe_b64encode d) = Inr (PStr Q, tv)"
    by (simp add: decode_offset_try_b64 l dict_get_def str_of_def)
  then show ?thesis using e by (simp add: decode_offset_def)
qed

lemma decode_encode_string:
  assumes "is_str Q" and "no_surrogate_pair Q" and "is_str T" and "no_surrogate_pair T"
  shows "\<exists>cursor. encode_offset R Q (PStr T) = Inr cursor
                 \<and> decode_offset cursor = (PStr Q, PStr T)"
proof (rule decode_encode_offset[OF assms(1,2)])
  show "list_all (\<lambda>c. c < 128) (json_dumps R (PStr T))"
    by (simp add: encode_basestring_ascii_ascii)
  show "scan_once (json_dumps R (PStr T) @ [125]) = Inr (PStr T, [125])"
    using scan_once_string[OF assms(3,4)] by simp
  show "skip_ws (json_dumps R (PStr T) @ [125]) = json_dumps R (PStr T) @ [125]"
    using skip_ws_string by simp
  show "json_dumps R (PStr T) \<noteq> []"
    by (simp add: encode_basestring_ascii_def)
qed

section \<open>Evaluating the codec on the samples\<close>

lemmas codec_eval =
  encode_basestring_ascii_def ascii_escape_char_def u_escape_def hex_digit_def str_of_def
  urlsafe_b64encode_def urlsafe_encode_translation_def b64_char_def

lemmas scan_eval =
  scan_once.simps scanstring.simps string_item_def unicode_escape_def read_hex4_def
  hex4_value_def hex_value_def backslash_def is_high_surrogate_def is_low_surrogate_def
  join_surrogates_def skip_ws_def is_ws_def starts_with_def

lemmas b64_eval =
  urlsafe_b64decode_def urlsafe_decode_translation_def b64_value_def

lemma sample_strings:
  "is_str (str_of ''lofi beats'')" "no_surrogate_pair (str_of ''lofi beats'')"
  "is_str (str_of ''TOKEN1'')" "no_surrogate_pair (str_of ''TOKEN1'')"
  "is_str (str_of ''cats'')" "no_surrogate_pair (str_of ''cats'')"
  by (simp_all add: is_str_def str_of_def is_high_surrogate_def)

lemma encode_offset_lofi:
  "encode_offset sample_runtime (str_of ''lofi beats'') (PStr (str_of ''TOKEN1''))
     = Inr (str_of ''eyJxIjogImxvZmkgYmVhdHMiLCAicGFnZVRva2VuIjogIlRPS0VOMSJ9'')"
proof -
  have "list_all (\<lambda>c. c < 128) (json_dumps sample_runtime (PStr (str_of ''TOKEN1'')))"
    by (simp add: encode_basestring_ascii_ascii)
  then show ?thesis
    by (simp add: encode_offset_ascii json_dumps_payload) (simp add: codec_eval)
qed


lemma decode_offset_lofi:
  "decode_offset (str_of ''eyJxIjogImxvZmkgYmVhdHMiLCAicGFnZVRva2VuIjogIlRPS0VOMSJ9'')
     = (PStr (str_of ''lofi beats''), PStr (str_of ''TOKEN1''))"
proof -
  obtain cursor where
    c: "encode_offset sample_runtime (str_of ''lofi beats'') (PStr (str_of ''TOKEN1'')) = Inr cursor"
    and d: "decode_offset cursor = (PStr (str_of ''lofi beats''), PStr (str_of ''TOKEN1''))"
    using decode_encode_string[OF sample_strings(1-4), of sample_runtime] by blast
  have "cursor = str_of ''eyJxIjogImxvZmkgYmVhdHMiLCAicGFnZVRva2VuIjogIlRPS0VOMSJ9''"
    using c encode_offset_lofi by simp
  then show ?thesis using d by simp
qed


lemma decode_offset_try_lofi:
  "decode_offset_try (str_of ''eyJxIjogImxvZmkgYmVhdHMiLCAicGFnZVRva2VuIjogIlRPS0VOMSJ9'')
     = Inr (PStr (str_of ''lofi beats''), PStr (str_of ''TOKEN1''))"
  using decode_offset_lofi
  by (auto simp: decode_offset_def split: sum.splits)




lemma b64decode_truncated: "urlsafe_b64decode (str_of ''abc'') = Inl BinasciiError"
  by (simp add: b64_eval str_of_def)

lemma b64decode_list: "urlsafe_b64decode (str_of ''W10='') = Inr [91, 93]"
  by (simp add: b64_eval str_of_def)

lemma b64decode_object:
  "urlsafe_b64decode (str_of ''eyJxIjogNX0='') = Inr [123, 34, 113, 34, 58, 32, 53, 125]"
  by (simp add: b64_eval str_of_def)

lemma json_loads_list: "json_loads [91, 93] = Inr (PList [])"
  by (simp add: json_loads_def scan_eval)

lemma json_loads_object:
  "json_loads [123, 34, 113, 34, 58, 32, 53, 125] = Inr (PDict [(str_of ''q'', PInt 5)])"
  by (simp add: json_loads_def scan_eval parse_object.simps str_of_def match_number_def
        number_sign_def number_int_def number_frac_def number_exp_def is_digit_def
        digits_value_def)

lemma str_encode_samples:
  "str_encode (str_of ''abc'') = Inr (str_of ''abc'')"
  "str_encode (str_of ''W10='') = Inr (str_of ''W10='')"
  "str_encode (str_of ''eyJxIjogNX0='') = Inr (str_of ''eyJxIjogNX0='')"
  by (rule str_encode_ascii, simp add: str_of_def)+






section \<open>The cursor codec: round trip, absent token, malformed input\<close>










text \<open>
  C4, decode robustness, as the code has it. \<open>decode_offset\<close> returns a pair for every
  input. The pair is \<open>(None, None)\<close> whenever the input cannot be encoded as UTF-8, is
  not Base64, does not decode to UTF-8 text, is not JSON, or is JSON but not an object.
  For a JSON object, of whatever shape, the pair holds the values under \<open>q\<close> and
  \<open>pageToken\<close>, with \<open>None\<close> for a key that is missing: the types of the two values
  are not checked.
\<close>

theorem decode_offset_robust:
  "decode_offset offset =
     (case str_encode offset of
        Inl e \<Rightarrow> (PNone, PNone)
      | Inr bs \<Rightarrow>
          (case urlsafe_b64decode bs of
             Inl e \<Rightarrow> (PNone, PNone)
           | Inr raw \<Rightarrow>
               (case bytes_decode raw of
                  Inl e \<Rightarrow> (PNone, PNone)
                | Inr decoded \<Rightarrow>
                    (case json_loads decoded of
                       Inr (PDict kvs) \<Rightarrow>
                         (case map_of kvs (str_of ''q'') of None \<Rightarrow> PNone | Some v \<Rightarrow> v,
                          case map_of kvs (str_of ''pageToken'') of None \<Rightarrow> PNone | Some v \<Rightarrow> v)
                     | _ \<Rightarrow> (PNone, PNone)))))"
  by (simp add: decode_offset_def decode_offset_try_def dict_get_def
           split: sum.splits pyval.splits)

theorem decode_offset_robust_witness:
  "decode_offset (str_of ''abc'') = (PNone, PNone)
   \<and> urlsafe_b64decode (str_of ''abc'') = Inl BinasciiError
   \<and> decode_offset (str_of ''W10='') = (PNone, PNone)
   \<and> urlsafe_b64decode (str_of ''W10='') = Inr [91, 93]
   \<and> json_loads [91, 93] = Inr (PList [])"
proof -
  have d: "bytes_decode [91, 93] = Inr [91, 93]"
    by simp
  have "decode_offset (str_of ''abc'') = (PNone, PNone)"
    using decode_offset_robust[of "str_of ''abc''"]
    by (simp add: str_encode_samples b64decode_truncated)
  moreover have "decode_offset (str_of ''W10='') = (PNone, PNone)"
    using decode_offset_robust[of "str_of ''W10=''"]
    by (simp add: str_encode_samples b64decode_list d json_loads_list)
  ultimately show ?thesis
    using b64decode_truncated b64decode_list json_loads_list by simp
qed

text \<open>
  The claim as the specification states it fails for a payload of the wrong shape that is
  a JSON object: the Base64 text of \<open>{"q": 5}\<close> decodes to \<open>(5, None)\<close>.
\<close>

theorem decode_offset_robust_counterexample:
  "decode_offset (str_of ''eyJxIjogNX0='') = (PInt 5, PNone)
   \<and> decode_offset (str_of ''eyJxIjogNX0='') \<noteq> (PNone, PNone)"
proof -
  have "bytes_decode [123, 34, 113, 34, 58, 32, 53, 125] = Inr [123, 34, 113, 34, 58, 32, 53, 125]"
    by (rule bytes_decode_ascii) simp
  then have "decode_offset_try (str_of ''eyJxIjogNX0='') = Inr (PInt 5, PNone)"
    by (simp add: decode_offset_try_def str_encode_samples b64decode_object json_loads_object
          dict_get_def)
       (simp add: str_of_def)
  then show ?thesis by (simp add: decode_offset_def)
qed

end
